theory Spec2Isabelle
  imports Main "HOL-Library.Code_Target_Nat"
begin

section \<open>Strings\<close>

text \<open>
  A JavaScript string is a sequence of UTF-16 code units; \<open>s.length\<close> counts code units.
  A token is a string. \<open>js\<close> reads an ASCII literal as such a string.
\<close>

type_synonym codeunit = nat
type_synonym jsstring = "codeunit list"
type_synonym token = jsstring

definition js :: "string \<Rightarrow> jsstring" where
  "js s = map of_char s"

text \<open>\<open>tokens.join('')\<close>\<close>

definition join :: "jsstring list \<Rightarrow> jsstring" where
  "join ts = concat ts"

text \<open>
  \<open>for (const char of html)\<close> runs the string iterator: it yields one string per code
  point, two code units long for a high surrogate followed by a low surrogate and one
  code unit long otherwise.
\<close>

definition isHighSurrogate :: "codeunit \<Rightarrow> bool" where
  "isHighSurrogate u = (55296 \<le> u \<and> u \<le> 56319)"

definition isLowSurrogate :: "codeunit \<Rightarrow> bool" where
  "isLowSurrogate u = (56320 \<le> u \<and> u \<le> 57343)"

fun codePoints :: "jsstring \<Rightarrow> jsstring list" where
  "codePoints [] = []"
| "codePoints [u] = [[u]]"
| "codePoints (u # v # us) =
     (if isHighSurrogate u \<and> isLowSurrogate v then [u, v] # codePoints us
      else [u] # codePoints (v # us))"

section \<open>Character classes and the helper methods\<close>

text \<open>The regular expression class \<open>\s\<close>: WhiteSpace and LineTerminator code units.\<close>

definition reSpace :: "codeunit \<Rightarrow> bool" where
  "reSpace u = (u = 9 \<or> u = 10 \<or> u = 11 \<or> u = 12 \<or> u = 13 \<or> u = 32 \<or> u = 160
     \<or> u = 5760 \<or> (8192 \<le> u \<and> u \<le> 8202) \<or> u = 8232 \<or> u = 8233 \<or> u = 8239
     \<or> u = 8287 \<or> u = 12288 \<or> u = 65279)"

text \<open>
  The class \<open>[\w#@]\<close> under the flag \<open>i\<close> (without \<open>u\<close>): case folding never maps a
  code unit from 128 on to an ASCII one, so the class is the ASCII letters, digits, \<open>_\<close>,
  \<open>#\<close> and \<open>@\<close>.
\<close>

definition reWordHashAt :: "codeunit \<Rightarrow> bool" where
  "reWordHashAt u = ((48 \<le> u \<and> u \<le> 57) \<or> (65 \<le> u \<and> u \<le> 90) \<or> u = 95
     \<or> (97 \<le> u \<and> u \<le> 122) \<or> u = 35 \<or> u = 64)"

definition isEndOfTag :: "jsstring \<Rightarrow> bool" where
  "isEndOfTag char = (char = [62])"

definition isStartOfTag :: "jsstring \<Rightarrow> bool" where
  "isStartOfTag char = (char = [60])"

text \<open>\<open>/^\s+$/.test(char)\<close>\<close>

definition isWhitespace :: "jsstring \<Rightarrow> bool" where
  "isWhitespace char = (char \<noteq> [] \<and> list_all reSpace char)"

text \<open>\<open>/[\w#@]/i.test(char)\<close>: the pattern is not anchored, one code unit of the class suffices.\<close>

definition isWordChar :: "jsstring \<Rightarrow> bool" where
  "isWordChar char = list_ex reWordHashAt char"

text \<open>
  \<open>/^\s*<[^>]+>\s*$/.test(token)\<close>. No whitespace code unit is \<open><\<close> and the body excludes
  \<open>>\<close>, so the match is deterministic: leading whitespace, \<open><\<close>, a non-empty body up to the
  first \<open>>\<close>, that \<open>>\<close>, and whitespace up to the end of the string.
\<close>

definition isTag :: "token \<Rightarrow> bool" where
  "isTag token =
     (case dropWhile reSpace token of
        [] \<Rightarrow> False
      | u # rest \<Rightarrow>
          u = 60 \<and> takeWhile (\<lambda>c. c \<noteq> 62) rest \<noteq> [] \<and>
          (case dropWhile (\<lambda>c. c \<noteq> 62) rest of
             [] \<Rightarrow> False
           | v # trailing \<Rightarrow> list_all reSpace trailing))"

section \<open>Tokenizer\<close>

datatype mode = CharMode | TagMode | WhitespaceMode

text \<open>
  The state of the loop in \<open>htmlToTokens\<close>: the tokens pushed so far, \<open>currentToken\<close> and
  \<open>mode\<close>. \<open>flush\<close> is \<open>if (currentToken) tokens.push(currentToken)\<close>: the empty string is
  the only falsy string.
\<close>

type_synonym tokstate = "token list \<times> jsstring \<times> mode"

definition flush :: "token list \<Rightarrow> jsstring \<Rightarrow> token list" where
  "flush tokens currentToken = (if currentToken \<noteq> [] then tokens @ [currentToken] else tokens)"

fun tokStep :: "tokstate \<Rightarrow> jsstring \<Rightarrow> tokstate" where
  "tokStep (tokens, currentToken, TagMode) char =
     (if isEndOfTag char
      then (tokens @ [currentToken @ char], [],
            if isWhitespace char then WhitespaceMode else CharMode)
      else (tokens, currentToken @ char, TagMode))"
| "tokStep (tokens, currentToken, CharMode) char =
     (if isStartOfTag char then (flush tokens currentToken, char, TagMode)
      else if isWhitespace char then (flush tokens currentToken, char, WhitespaceMode)
      else if isWordChar char then (tokens, currentToken @ char, CharMode)
      else (flush tokens currentToken, char, CharMode))"
| "tokStep (tokens, currentToken, WhitespaceMode) char =
     (if isStartOfTag char then (flush tokens currentToken, char, TagMode)
      else if isWhitespace char then (tokens, currentToken @ char, WhitespaceMode)
      else (flush tokens currentToken, char, CharMode))"

definition htmlToTokens :: "jsstring \<Rightarrow> token list" where
  "htmlToTokens html =
     (case foldl tokStep ([], [], CharMode) (codePoints html) of
        (tokens, currentToken, mode) \<Rightarrow> flush tokens currentToken)"

section \<open>Arrays\<close>

text \<open>
  \<open>xs.slice(start, end)\<close>: a negative index counts from the end, and both are clipped to
  the array.
\<close>

definition relIndex :: "'a list \<Rightarrow> int \<Rightarrow> nat" where
  "relIndex xs k = (if k < 0 then nat (int (length xs) + k) else min (nat k) (length xs))"

definition slice :: "'a list \<Rightarrow> int \<Rightarrow> int \<Rightarrow> 'a list" where
  "slice xs start end = drop (relIndex xs start) (take (relIndex xs end) xs)"

text \<open>\<open>xs[i]\<close>: \<open>undefined\<close> (here \<open>None\<close>) outside the array.\<close>

definition elemAt :: "'a list \<Rightarrow> int \<Rightarrow> 'a option" where
  "elemAt xs i = (if 0 \<le> i \<and> i < int (length xs) then Some (xs ! nat i) else None)"

text \<open>
  \<open>xs.indexOf(x, fromIndex)\<close> for \<open>fromIndex \<ge> 0\<close> (the source passes none, that is 0, or
  a found index plus one): the first index from \<open>fromIndex\<close> on that holds \<open>x\<close>, or \<open>-1\<close>.
\<close>

definition indexOf :: "'a list \<Rightarrow> 'a \<Rightarrow> int \<Rightarrow> int" where
  "indexOf xs x fromIndex =
     (case find (\<lambda>k. xs ! k = x) [nat fromIndex..<length xs] of
        None \<Rightarrow> - 1
      | Some k \<Rightarrow> int k)"

section \<open>Matches and the token index\<close>

text \<open>
  The class \<open>Match\<close>. Its fields carry the suffix \<open>_m\<close>, which keeps the source's names
  free for the parameters and variables of the functions below. The constructor derives
  the two end positions.
\<close>

record match =
  startInBefore_m :: int
  startInAfter_m :: int
  length_m :: int
  endInBefore_m :: int
  endInAfter_m :: int

definition Match :: "int \<Rightarrow> int \<Rightarrow> int \<Rightarrow> match" where
  "Match startInBefore startInAfter len =
     \<lparr>startInBefore_m = startInBefore, startInAfter_m = startInAfter, length_m = len,
      endInBefore_m = startInBefore + len - 1, endInAfter_m = startInAfter + len - 1\<rparr>"

text \<open>
  The index is an object keyed by token. Every token looked up in it was assigned by
  \<open>createIndex\<close> before, so the keys are own properties; a key that was never assigned
  reads \<open>undefined\<close> (\<open>None\<close>).
\<close>

type_synonym index = "token \<rightharpoonup> int list"

lemma indexOf_range:
  "indexOf xs x fromIndex = - 1 \<or>
   (fromIndex \<le> indexOf xs x fromIndex \<and> 0 \<le> indexOf xs x fromIndex \<and>
    indexOf xs x fromIndex < int (length xs))"
proof (cases "find (\<lambda>k. xs ! k = x) [nat fromIndex..<length xs]")
  case None
  then show ?thesis by (simp add: indexOf_def)
next
  case (Some k)
  then have "k \<in> set [nat fromIndex..<length xs]"
    by (auto simp: find_Some_iff in_set_conv_nth)
  with Some show ?thesis by (auto simp: indexOf_def)
qed

text \<open>
  The loop \<open>while (idx !== -1) { index[token].push(idx); idx = inThese.indexOf(token, idx + 1) }\<close>
  with the array \<open>index[token]\<close> as accumulator.
\<close>

function collectIndexes :: "token list \<Rightarrow> token \<Rightarrow> int \<Rightarrow> int list \<Rightarrow> int list" where
  "collectIndexes inThese token idx found =
     (if idx \<noteq> - 1
      then collectIndexes inThese token (indexOf inThese token (idx + 1)) (found @ [idx])
      else found)"
  by pat_completeness auto
termination
proof (relation "measure (\<lambda>(inThese, token, idx, found).
          if idx = - 1 then 0 else 1 + nat (int (length inThese) - idx))", goal_cases)
  case 1
  then show ?case by simp
next
  case (2 inThese token idx found)
  from indexOf_range [of inThese token "idx + 1"] 2 show ?case
    by auto
qed

declare collectIndexes.simps [simp del]

definition createIndex :: "token list \<Rightarrow> token list \<Rightarrow> index" where
  "createIndex findThese inThese =
     foldl (\<lambda>index token.
              index(token \<mapsto> collectIndexes inThese token (indexOf inThese token 0) []))
       Map.empty findThese"

section \<open>Block matcher\<close>

text \<open>
  \<open>findMatch\<close>. The best match so far is the triple
  \<open>(bestMatchInBefore, bestMatchInAfter, bestMatchLength)\<close>; \<open>matchLengthAt\<close> and
  \<open>newMatchLengthAt\<close> are objects keyed by position. \<open>m[k] || 0\<close> is 0 for a missing key.
\<close>

type_synonym best = "int \<times> int \<times> int"
type_synonym lengthAt = "int \<rightharpoonup> int"

definition orZero :: "int option \<Rightarrow> int" where
  "orZero v = (case v of None \<Rightarrow> 0 | Some n \<Rightarrow> n)"

text \<open>The inner loop over \<open>locationsInAfter\<close>, with its \<open>continue\<close> and \<open>break\<close>.\<close>

fun findMatchInner ::
  "lengthAt \<Rightarrow> int \<Rightarrow> int \<Rightarrow> int \<Rightarrow> int list \<Rightarrow> best \<times> lengthAt \<Rightarrow> best \<times> lengthAt" where
  "findMatchInner matchLengthAt indexInBefore startInAfter endInAfter [] st = st"
| "findMatchInner matchLengthAt indexInBefore startInAfter endInAfter (indexInAfter # rest)
       ((bestMatchInBefore, bestMatchInAfter, bestMatchLength), newMatchLengthAt) =
     (if indexInAfter < startInAfter
      then findMatchInner matchLengthAt indexInBefore startInAfter endInAfter rest
             ((bestMatchInBefore, bestMatchInAfter, bestMatchLength), newMatchLengthAt)
      else if indexInAfter \<ge> endInAfter
      then ((bestMatchInBefore, bestMatchInAfter, bestMatchLength), newMatchLengthAt)
      else
        let previousMatchLength = orZero (matchLengthAt (indexInAfter - 1));
            newMatchLength = previousMatchLength + 1
        in findMatchInner matchLengthAt indexInBefore startInAfter endInAfter rest
             (if newMatchLength > bestMatchLength
              then (indexInBefore - newMatchLength + 1, indexInAfter - newMatchLength + 1,
                    newMatchLength)
              else (bestMatchInBefore, bestMatchInAfter, bestMatchLength),
              newMatchLengthAt(indexInAfter \<mapsto> newMatchLength)))"

text \<open>
  \<open>index[lookingFor] || []\<close> with \<open>lookingFor = beforeTokens[indexInBefore]\<close>. Past the
  array \<open>lookingFor\<close> is \<open>undefined\<close>, which as a property key is the string "undefined".
\<close>

definition locationsInAfter :: "token list \<Rightarrow> index \<Rightarrow> int \<Rightarrow> int list" where
  "locationsInAfter beforeTokens index indexInBefore =
     (let lookingFor = (case elemAt beforeTokens indexInBefore of
                          None \<Rightarrow> js ''undefined''
                        | Some token \<Rightarrow> token)
      in case index lookingFor of None \<Rightarrow> [] | Some locations \<Rightarrow> locations)"

text \<open>The outer loop \<open>for (indexInBefore = startInBefore; indexInBefore < endInBefore; indexInBefore++)\<close>.\<close>

function findMatchOuter ::
  "token list \<Rightarrow> index \<Rightarrow> int \<Rightarrow> int \<Rightarrow> int \<Rightarrow> int \<Rightarrow> best \<times> lengthAt \<Rightarrow> best \<times> lengthAt" where
  "findMatchOuter beforeTokens index endInBefore startInAfter endInAfter indexInBefore
       (best, matchLengthAt) =
     (if indexInBefore < endInBefore
      then findMatchOuter beforeTokens index endInBefore startInAfter endInAfter
             (indexInBefore + 1)
             (findMatchInner matchLengthAt indexInBefore startInAfter endInAfter
                (locationsInAfter beforeTokens index indexInBefore) (best, Map.empty))
      else (best, matchLengthAt))"
  by pat_completeness auto
termination
  by (relation "measure (\<lambda>(beforeTokens, index, endInBefore, startInAfter, endInAfter,
          indexInBefore, st). nat (endInBefore - indexInBefore))") auto

declare findMatchOuter.simps [simp del]

text \<open>
  \<open>afterTokens\<close> is a parameter of the source's \<open>findMatch\<close> that its body never reads:
  the positions in the after sequence come from \<open>index\<close>.
\<close>

definition findMatch ::
  "token list \<Rightarrow> token list \<Rightarrow> index \<Rightarrow> int \<Rightarrow> int \<Rightarrow> int \<Rightarrow> int \<Rightarrow> match option" where
  "findMatch beforeTokens afterTokens index startInBefore endInBefore startInAfter endInAfter =
     (case findMatchOuter beforeTokens index endInBefore startInAfter endInAfter startInBefore
             ((startInBefore, startInAfter, 0), Map.empty) of
        ((bestMatchInBefore, bestMatchInAfter, bestMatchLength), matchLengthAt) \<Rightarrow>
          if bestMatchLength \<noteq> 0
          then Some (Match bestMatchInBefore bestMatchInAfter bestMatchLength)
          else None)"

text \<open>
  Whatever the index holds, a match that \<open>findMatch\<close> returns lies inside the two ranges
  and is at least one token long. The recursion of the aligner terminates by this.
\<close>

definition lengthsInRange :: "int \<Rightarrow> int \<Rightarrow> int \<Rightarrow> int \<Rightarrow> lengthAt \<Rightarrow> bool" where
  "lengthsInRange startInBefore startInAfter endInAfter row m =
     (\<forall>j l. m j = Some l \<longrightarrow> 1 \<le> l \<and> l \<le> row - startInBefore + 1 \<and> l \<le> j - startInAfter + 1 \<and> j < endInAfter)"

definition bestInRange :: "int \<Rightarrow> int \<Rightarrow> int \<Rightarrow> int \<Rightarrow> best \<Rightarrow> bool" where
  "bestInRange startInBefore endInBefore startInAfter endInAfter b =
     (case b of (bi, bj, bl) \<Rightarrow>
        bl = 0 \<or> (1 \<le> bl \<and> startInBefore \<le> bi \<and> bi + bl \<le> endInBefore \<and>
                  startInAfter \<le> bj \<and> bj + bl \<le> endInAfter))"

lemma findMatchInner_range:
  assumes "lengthsInRange sb sa ea (i - 1) m" "sb \<le> i" "i < eb"
  shows "bestInRange sb eb sa ea b \<Longrightarrow> lengthsInRange sb sa ea i n \<Longrightarrow>
         findMatchInner m i sa ea locs (b, n) = (b', n') \<Longrightarrow>
         bestInRange sb eb sa ea b' \<and> lengthsInRange sb sa ea i n'"
proof (induction locs arbitrary: b n)
  case Nil
  then show ?case by simp
next
  case (Cons j locs)
  obtain bi bj bl where b: "b = (bi, bj, bl)" by (cases b) auto
  show ?case
  proof (cases "j < sa")
    case True
    with Cons b show ?thesis by simp
  next
    case lo: False
    show ?thesis
    proof (cases "j \<ge> ea")
      case True
      with Cons lo b show ?thesis by simp
    next
      case hi: False
      define l where "l = orZero (m (j - 1)) + 1"
      have l: "1 \<le> l \<and> l \<le> i - sb + 1 \<and> l \<le> j - sa + 1"
        using assms lo hi unfolding l_def orZero_def lengthsInRange_def
        by (cases "m (j - 1)") force+
      let ?b = "if l > bl then (i - l + 1, j - l + 1, l) else (bi, bj, bl)"
      have b': "bestInRange sb eb sa ea ?b"
        using l Cons.prems(1) assms hi unfolding b bestInRange_def by auto
      have n': "lengthsInRange sb sa ea i (n(j \<mapsto> l))"
        using l Cons.prems(2) hi unfolding lengthsInRange_def by auto
      have "findMatchInner m i sa ea locs (?b, n(j \<mapsto> l)) = (b', n')"
        using Cons.prems(3) lo hi unfolding b l_def by (simp add: Let_def)
      from Cons.IH [OF b' n' this] show ?thesis .
    qed
  qed
qed

lemma findMatchOuter_range:
  "sb \<le> i \<Longrightarrow> lengthsInRange sb sa ea (i - 1) m \<Longrightarrow> bestInRange sb eb sa ea b \<Longrightarrow>
   findMatchOuter bt idx eb sa ea i (b, m) = (b', m') \<Longrightarrow> bestInRange sb eb sa ea b'"
proof (induction bt idx eb sa ea i "(b, m)" arbitrary: b m rule: findMatchOuter.induct)
  case (1 bt idx eb sa ea i b m)
  show ?case
  proof (cases "i < eb")
    case False
    with "1.prems" show ?thesis by (simp add: findMatchOuter.simps)
  next
    case True
    obtain b1 m1 where st: "findMatchInner m i sa ea (locationsInAfter bt idx i) (b, Map.empty) = (b1, m1)"
      by (cases "findMatchInner m i sa ea (locationsInAfter bt idx i) (b, Map.empty)") auto
    have e: "lengthsInRange sb sa ea i Map.empty" by (simp add: lengthsInRange_def)
    from findMatchInner_range [OF "1.prems"(2) "1.prems"(1) True "1.prems"(3) e st]
    have b1: "bestInRange sb eb sa ea b1" and m1: "lengthsInRange sb sa ea i m1" by auto
    have "findMatchOuter bt idx eb sa ea (i + 1) (b1, m1) = (b', m')"
      using "1.prems"(4) True st by (simp add: findMatchOuter.simps [of _ _ _ _ _ i])
    from "1.hyps" [OF True st _ _ b1 this] "1.prems"(1) m1 show ?thesis by simp
  qed
qed

lemma findMatch_range:
  assumes "findMatch bt at idx sb eb sa ea = Some m"
  shows "endInBefore_m m = startInBefore_m m + length_m m - 1 \<and>
         endInAfter_m m = startInAfter_m m + length_m m - 1 \<and> 1 \<le> length_m m \<and>
         sb \<le> startInBefore_m m \<and> endInBefore_m m < eb \<and>
         sa \<le> startInAfter_m m \<and> endInAfter_m m < ea"
proof -
  obtain bi bj bl m' where st: "findMatchOuter bt idx eb sa ea sb ((sb, sa, 0), Map.empty) = ((bi, bj, bl), m')"
    by (metis prod_cases3 surj_pair)
  have "bestInRange sb eb sa ea (bi, bj, bl)"
    by (rule findMatchOuter_range [OF _ _ _ st]) (simp_all add: lengthsInRange_def bestInRange_def)
  moreover from assms st have "bl \<noteq> 0" "m = Match bi bj bl"
    by (auto simp: findMatch_def split: if_splits)
  ultimately show ?thesis by (auto simp: bestInRange_def Match_def)
qed

section \<open>Recursive aligner\<close>

text \<open>
  \<open>recursivelyFindMatchingBlocks\<close> pushes onto the one array \<open>matchingBlocks\<close>; the model
  passes the array through the calls.
\<close>

function recursivelyFindMatchingBlocks ::
  "token list \<Rightarrow> token list \<Rightarrow> index \<Rightarrow> int \<Rightarrow> int \<Rightarrow> int \<Rightarrow> int \<Rightarrow> match list \<Rightarrow> match list" where
  "recursivelyFindMatchingBlocks beforeTokens afterTokens index
       startInBefore endInBefore startInAfter endInAfter matchingBlocks =
     (case findMatch beforeTokens afterTokens index
             startInBefore endInBefore startInAfter endInAfter of
        None \<Rightarrow> matchingBlocks
      | Some m \<Rightarrow>
          (let blocks1 =
                 (if startInBefore < startInBefore_m m \<and> startInAfter < startInAfter_m m
                  then recursivelyFindMatchingBlocks beforeTokens afterTokens index
                         startInBefore (startInBefore_m m) startInAfter (startInAfter_m m)
                         matchingBlocks
                  else matchingBlocks);
               blocks2 = blocks1 @ [m]
           in if endInBefore_m m < endInBefore \<and> endInAfter_m m < endInAfter
              then recursivelyFindMatchingBlocks beforeTokens afterTokens index
                     (endInBefore_m m + 1) endInBefore (endInAfter_m m + 1) endInAfter blocks2
              else blocks2))"
  by pat_completeness auto
termination
proof (relation "measure (\<lambda>(beforeTokens, afterTokens, index, startInBefore, endInBefore,
          startInAfter, endInAfter, matchingBlocks). nat (endInBefore - startInBefore))",
       goal_cases)
  case 1
  then show ?case by simp
next
  case (2 bt at idx sb eb sa ea blocks m)
  from findMatch_range [OF 2(1)] 2(2) show ?case
    by auto
next
  case (3 bt at idx sb eb sa ea blocks m)
  from findMatch_range [OF 3(1)] show ?case
    by auto
qed

declare recursivelyFindMatchingBlocks.simps [simp del]

definition findMatchingBlocks :: "token list \<Rightarrow> token list \<Rightarrow> match list" where
  "findMatchingBlocks beforeTokens afterTokens =
     (let matchingBlocks = [];
          index = createIndex beforeTokens afterTokens
      in recursivelyFindMatchingBlocks beforeTokens afterTokens index
           0 (int (length beforeTokens)) 0 (int (length afterTokens)) matchingBlocks)"

section \<open>Operations\<close>

text \<open>
  An operation object. The action is one of the strings \<open>equal\<close>, \<open>insert\<close>, \<open>delete\<close>,
  \<open>replace\<close> and \<open>none\<close>; an end position may be \<open>undefined\<close> (\<open>None\<close>). The fields carry
  the suffix \<open>_op\<close>.
\<close>

datatype action = Equal | Insert | Delete | Replace | NoneAction

record operation =
  action_op :: action
  startInBefore_op :: int
  endInBefore_op :: "int option"
  startInAfter_op :: int
  endInAfter_op :: "int option"

text \<open>\<open>actionMap\<close>, keyed by the two comparisons.\<close>

definition actionMap :: "bool \<Rightarrow> bool \<Rightarrow> action" where
  "actionMap matchStartsAtCurrentPositionInBefore matchStartsAtCurrentPositionInAfter =
     (if \<not> matchStartsAtCurrentPositionInBefore \<and> \<not> matchStartsAtCurrentPositionInAfter
      then Replace
      else if matchStartsAtCurrentPositionInBefore \<and> \<not> matchStartsAtCurrentPositionInAfter
      then Insert
      else if \<not> matchStartsAtCurrentPositionInBefore \<and> matchStartsAtCurrentPositionInAfter
      then Delete
      else NoneAction)"

text \<open>
  The body of \<open>for (const match of matches)\<close> in \<open>calculateOperations\<close>, on the state
  \<open>(positionInBefore, positionInAfter, operations)\<close>.
\<close>

fun operationStep :: "int \<times> int \<times> operation list \<Rightarrow> match \<Rightarrow> int \<times> int \<times> operation list" where
  "operationStep (positionInBefore, positionInAfter, operations) m =
     (let matchStartsAtCurrentPositionInBefore = (positionInBefore = startInBefore_m m);
          matchStartsAtCurrentPositionInAfter = (positionInAfter = startInAfter_m m);
          action = actionMap matchStartsAtCurrentPositionInBefore
                     matchStartsAtCurrentPositionInAfter;
          operations1 =
            (if action \<noteq> NoneAction
             then operations @
               [\<lparr>action_op = action,
                 startInBefore_op = positionInBefore,
                 endInBefore_op = (if action \<noteq> Insert then Some (startInBefore_m m - 1) else None),
                 startInAfter_op = positionInAfter,
                 endInAfter_op = (if action \<noteq> Delete then Some (startInAfter_m m - 1) else None)\<rparr>]
             else operations);
          operations2 =
            (if length_m m \<noteq> 0
             then operations1 @
               [\<lparr>action_op = Equal,
                 startInBefore_op = startInBefore_m m,
                 endInBefore_op = Some (endInBefore_m m),
                 startInAfter_op = startInAfter_m m,
                 endInAfter_op = Some (endInAfter_m m)\<rparr>]
             else operations1)
      in (endInBefore_m m + 1, endInAfter_m m + 1, operations2))"

text \<open>
  The array \<open>operations\<close> as \<open>calculateOperations\<close> hands it to \<open>postProcessOperations\<close>:
  the matching blocks and the terminal match of length 0, walked in order.
\<close>

definition derivedOperations :: "token list \<Rightarrow> token list \<Rightarrow> operation list" where
  "derivedOperations beforeTokens afterTokens =
     (let matches = findMatchingBlocks beforeTokens afterTokens @
                      [Match (int (length beforeTokens)) (int (length afterTokens)) 0]
      in snd (snd (foldl operationStep (0, 0, []) matches)))"

text \<open>
  \<open>xs.slice(start, end + 1)\<close> for an end position that may be \<open>undefined\<close>:
  \<open>undefined + 1\<close> is \<open>NaN\<close>, which \<open>slice\<close> reads as 0.
\<close>

definition sliceTo :: "'a list \<Rightarrow> int \<Rightarrow> int option \<Rightarrow> 'a list" where
  "sliceTo xs start end = slice xs start (case end of None \<Rightarrow> 0 | Some e \<Rightarrow> e + 1)"

text \<open>\<open>/^\s$/.test(token)\<close>\<close>

definition reSingleSpace :: "jsstring \<Rightarrow> bool" where
  "reSingleSpace token = (case token of [u] \<Rightarrow> reSpace u | _ \<Rightarrow> False)"

text \<open>
  \<open>isSingleWhitespace\<close> of \<open>postProcessOperations\<close>. With an undefined end position the
  difference is \<open>NaN\<close>, which is not 0.
\<close>

definition isSingleWhitespace :: "token list \<Rightarrow> operation \<Rightarrow> bool" where
  "isSingleWhitespace beforeTokens op =
     (if action_op op \<noteq> Equal then False
      else case endInBefore_op op of
             None \<Rightarrow> False
           | Some e \<Rightarrow>
               if e - startInBefore_op op \<noteq> 0 then False
               else reSingleSpace
                      (join (sliceTo beforeTokens (startInBefore_op op) (endInBefore_op op))))"

text \<open>
  \<open>lastOp\<close> is \<open>{ action: 'none' }\<close> until the first push and the last element of
  \<open>processed\<close> from then on: the same object, so that assigning to its fields changes the
  element of \<open>processed\<close>.
\<close>

definition lastOpAction :: "operation list \<Rightarrow> action" where
  "lastOpAction processed = (if processed = [] then NoneAction else action_op (last processed))"

definition postProcessStep :: "token list \<Rightarrow> operation list \<Rightarrow> operation \<Rightarrow> operation list" where
  "postProcessStep beforeTokens processed op =
     (if (isSingleWhitespace beforeTokens op \<and> lastOpAction processed = Replace) \<or>
         (action_op op = Replace \<and> lastOpAction processed = Replace)
      then processed[length processed - 1 :=
             (last processed)\<lparr>endInBefore_op := endInBefore_op op,
                               endInAfter_op := endInAfter_op op\<rparr>]
      else processed @ [op])"

definition postProcessOperations :: "operation list \<Rightarrow> token list \<Rightarrow> operation list" where
  "postProcessOperations operations beforeTokens =
     foldl (postProcessStep beforeTokens) [] operations"

text \<open>
  The two arguments of \<open>calculateOperations\<close> are arrays of tokens, \<open>null\<close> or
  \<open>undefined\<close>. An array, also the empty one, is truthy.
\<close>

datatype tokensArg = Null | Undefined | Tokens "token list"

datatype error = Error string | TypeError string

definition calculateOperations :: "tokensArg \<Rightarrow> tokensArg \<Rightarrow> error + operation list" where
  "calculateOperations before after =
     (case before of
        Tokens beforeTokens \<Rightarrow>
          (case after of
             Tokens afterTokens \<Rightarrow>
               Inr (postProcessOperations (derivedOperations beforeTokens afterTokens)
                      beforeTokens)
           | _ \<Rightarrow> Inl (Error ''afterTokens is required''))
      | _ \<Rightarrow> Inl (Error ''beforeTokens is required''))"

section \<open>Diff records\<close>

text \<open>A diff record is an object literal: its fields in order, each a string or a number.\<close>

datatype jsval = Str jsstring | Num int

type_synonym diffObject = "(string \<times> jsval) list"

definition field :: "diffObject \<Rightarrow> string \<Rightarrow> jsval option" where
  "field obj name = map_of obj name"

definition getTextPosition :: "token list \<Rightarrow> int \<Rightarrow> int \<Rightarrow> int" where
  "getTextPosition tokens startToken endToken =
     int (length (join (slice tokens startToken endToken)))"

text \<open>\<open>a || b\<close> on numbers: \<open>b\<close> when \<open>a\<close> is 0.\<close>

definition orElse :: "int \<Rightarrow> int \<Rightarrow> int" where
  "orElse a b = (if a = 0 then b else a)"

text \<open>The \<open>switch\<close> of \<open>createDiffObjects\<close>; no case matches the action \<open>none\<close>.\<close>

definition createDiffObject ::
  "token list \<Rightarrow> token list \<Rightarrow> operation \<Rightarrow> diffObject list" where
  "createDiffObject beforeTokens afterTokens op =
     (case action_op op of
        Equal \<Rightarrow>
          (let equalText = join (sliceTo beforeTokens (startInBefore_op op) (endInBefore_op op));
               beforeStart = getTextPosition beforeTokens 0 (startInBefore_op op);
               afterStart = getTextPosition afterTokens 0 (startInAfter_op op)
           in [[(''type'', Str (js ''equal'')),
                (''text'', Str equalText),
                (''beforeStartPosition'', Num beforeStart),
                (''beforeEndPosition'', Num (beforeStart + int (length equalText) - 1)),
                (''afterStartPosition'', Num afterStart),
                (''afterEndPosition'', Num (afterStart + int (length equalText) - 1)),
                (''length'', Num (int (length equalText)))]])
      | Insert \<Rightarrow>
          (let insertedText = join (sliceTo afterTokens (startInAfter_op op) (endInAfter_op op));
               insertAfterStart = getTextPosition afterTokens 0 (startInAfter_op op)
           in [[(''type'', Str (js ''insert'')),
                (''text'', Str insertedText),
                (''afterStartPosition'', Num insertAfterStart),
                (''afterEndPosition'', Num (insertAfterStart + int (length insertedText) - 1)),
                (''length'', Num (int (length insertedText))),
                (''beforePosition'',
                   Num (getTextPosition beforeTokens 0
                          (orElse (startInBefore_op op) (int (length beforeTokens)))))]])
      | Delete \<Rightarrow>
          (let deletedText = join (sliceTo beforeTokens (startInBefore_op op) (endInBefore_op op));
               deleteBeforeStart = getTextPosition beforeTokens 0 (startInBefore_op op)
           in [[(''type'', Str (js ''delete'')),
                (''text'', Str deletedText),
                (''beforeStartPosition'', Num deleteBeforeStart),
                (''beforeEndPosition'', Num (deleteBeforeStart + int (length deletedText) - 1)),
                (''length'', Num (int (length deletedText))),
                (''afterPosition'',
                   Num (getTextPosition afterTokens 0
                          (orElse (startInAfter_op op) (int (length afterTokens)))))]])
      | Replace \<Rightarrow>
          (let deletedTextReplace =
                 join (sliceTo beforeTokens (startInBefore_op op) (endInBefore_op op));
               insertedTextReplace =
                 join (sliceTo afterTokens (startInAfter_op op) (endInAfter_op op));
               replaceBeforeStart = getTextPosition beforeTokens 0 (startInBefore_op op);
               replaceAfterStart = getTextPosition afterTokens 0 (startInAfter_op op)
           in [[(''type'', Str (js ''replace'')),
                (''oldText'', Str deletedTextReplace),
                (''newText'', Str insertedTextReplace),
                (''beforeStartPosition'', Num replaceBeforeStart),
                (''beforeEndPosition'',
                   Num (replaceBeforeStart + int (length deletedTextReplace) - 1)),
                (''afterStartPosition'', Num replaceAfterStart),
                (''afterEndPosition'',
                   Num (replaceAfterStart + int (length insertedTextReplace) - 1)),
                (''oldLength'', Num (int (length deletedTextReplace))),
                (''newLength'', Num (int (length insertedTextReplace)))]])
      | NoneAction \<Rightarrow> [])"

text \<open>
  \<open>createDiffObjects\<close> reads its parameters \<open>before\<close> and \<open>after\<close> nowhere; they are left
  out here.
\<close>

definition createDiffObjects ::
  "token list \<Rightarrow> token list \<Rightarrow> operation list \<Rightarrow> diffObject list" where
  "createDiffObjects beforeTokens afterTokens operations =
     foldl (\<lambda>diffObjects op. diffObjects @ createDiffObject beforeTokens afterTokens op)
       [] operations"

definition diff :: "jsstring \<Rightarrow> jsstring \<Rightarrow> error + diffObject list" where
  "diff before after =
     (if before = after
      then Inr [[(''type'', Str (js ''equal'')),
                 (''text'', Str before),
                 (''startPosition'', Num 0),
                 (''endPosition'', Num (int (length before) - 1)),
                 (''length'', Num (int (length before)))]]
      else
        let beforeTokens = htmlToTokens before;
            afterTokens = htmlToTokens after
        in case calculateOperations (Tokens beforeTokens) (Tokens afterTokens) of
             Inl e \<Rightarrow> Inl e
           | Inr operations \<Rightarrow> Inr (createDiffObjects beforeTokens afterTokens operations))"

section \<open>Markup renderer\<close>

text \<open>
  The loop of \<open>consecutiveWhere\<close> on the state \<open>(i, lastMatchingIndex)\<close>. The predicates
  passed return booleans, so every element either matches or breaks the loop.
\<close>

fun lastMatching :: "('a \<Rightarrow> bool) \<Rightarrow> 'a list \<Rightarrow> int \<Rightarrow> int \<Rightarrow> int" where
  "lastMatching predicate [] i lastMatchingIndex = lastMatchingIndex"
| "lastMatching predicate (x # rest) i lastMatchingIndex =
     (if predicate x then lastMatching predicate rest (i + 1) i else lastMatchingIndex)"

definition consecutiveWhere :: "int \<Rightarrow> 'a list \<Rightarrow> ('a \<Rightarrow> bool) \<Rightarrow> 'a list" where
  "consecutiveWhere start content predicate =
     (let subset' = slice content start (int (length content));
          lastMatchingIndex = lastMatching predicate subset' 0 (- 1)
      in if lastMatchingIndex \<ge> 0 then slice subset' 0 (lastMatchingIndex + 1) else [])"

lemma lastMatching_takeWhile:
  "- 1 \<le> l \<Longrightarrow> l < i \<Longrightarrow>
   lastMatching p xs i l = (if takeWhile p xs = [] then l else i + int (length (takeWhile p xs)) - 1)"
  by (induction xs arbitrary: i l) auto

lemma slice_from: "slice xs (int n) (int (length xs)) = drop n xs"
  by (cases "n \<le> length xs") (simp_all add: slice_def relIndex_def min_def)

lemma slice_prefix: "n \<le> length xs \<Longrightarrow> slice xs 0 (int n) = take n xs"
  by (simp add: slice_def relIndex_def min_def)

lemma consecutiveWhere_takeWhile:
  "consecutiveWhere (int n) content p = takeWhile p (drop n content)"
proof -
  let ?rest = "drop n content"
  let ?k = "length (takeWhile p ?rest)"
  have "?k \<le> length ?rest"
    by (rule length_takeWhile_le)
  then have "slice ?rest 0 (int ?k) = take ?k ?rest"
    by (rule slice_prefix)
  also have "\<dots> = takeWhile p ?rest"
    by (rule takeWhile_eq_take [symmetric])
  finally have pre: "slice ?rest 0 (int ?k) = takeWhile p ?rest" .
  show ?thesis
  proof (cases "takeWhile p ?rest = []")
    case True
    then show ?thesis
      by (simp add: consecutiveWhere_def slice_from Let_def lastMatching_takeWhile)
  next
    case False
    then have "?k > 0" by simp
    with pre False show ?thesis
      by (simp add: consecutiveWhere_def slice_from Let_def lastMatching_takeWhile)
  qed
qed

text \<open>
  The loop \<open>while (position < length)\<close> of \<open>wrapWithTag\<close> on \<open>(position, rendering)\<close>;
  \<open>position\<close> starts at 0 and only grows.
\<close>

function wrapLoop :: "jsstring \<Rightarrow> token list \<Rightarrow> nat \<Rightarrow> jsstring \<Rightarrow> jsstring" where
  "wrapLoop tag content position rendering =
     (if position < length content
      then
        let nonTags = consecutiveWhere (int position) content (\<lambda>token. \<not> isTag token);
            position1 = position + length nonTags;
            rendering1 =
              (if length nonTags > 0
               then rendering @ js ''<'' @ tag @ js ''>'' @ join nonTags @ js ''</'' @ tag @ js ''>''
               else rendering)
        in if position1 \<ge> length content then rendering1
           else
             let tags = consecutiveWhere (int position1) content (\<lambda>token. isTag token);
                 position2 = position1 + length tags;
                 rendering2 = rendering1 @ join tags
             in wrapLoop tag content position2 rendering2
      else rendering)"
  by pat_completeness auto
termination
proof (relation "measure (\<lambda>(tag, content, position, rendering). length content - position)",
       goal_cases)
  case 1
  then show ?case by simp
next
  case (2 tag content position rendering nonTags position1 rendering1 tags position2 rendering2)
  let ?rest = "drop position content"
  let ?n = "length (takeWhile (\<lambda>token. \<not> isTag token) ?rest)"
  from 2 have nonTags: "nonTags = takeWhile (\<lambda>token. \<not> isTag token) ?rest"
    by (simp add: consecutiveWhere_takeWhile)
  from 2 have p1: "position1 = position + ?n" and lt: "position1 < length content"
    by (simp_all add: nonTags)
  from 2 have tags: "tags = takeWhile isTag (drop position1 content)"
    by (simp only: consecutiveWhere_takeWhile)
  have "?n > 0 \<or> tags \<noteq> []"
  proof (cases "?n > 0")
    case False
    then have "takeWhile (\<lambda>token. \<not> isTag token) ?rest = []" by simp
    moreover from 2(1) have "?rest \<noteq> []" by simp
    ultimately have "isTag (hd ?rest)"
      by (cases ?rest) (auto split: if_splits)
    moreover from False have "drop position1 content = ?rest"
      unfolding p1 by simp
    ultimately show ?thesis
      using \<open>?rest \<noteq> []\<close> unfolding tags by (cases ?rest) auto
  qed simp
  moreover from 2 have "position2 = position1 + length tags"
    by simp
  ultimately have "position < position2"
    unfolding p1 by auto
  with 2(1) show ?case by simp
qed

declare wrapLoop.simps [simp del]

definition wrapWithTag :: "jsstring \<Rightarrow> token list \<Rightarrow> jsstring" where
  "wrapWithTag tag content = wrapLoop tag content 0 []"

text \<open>
  \<open>operationMap\<close>, the table of renderers that the constructor builds, keyed by action;
  \<open>'none'\<close> is no key of it. The entry for \<open>replace\<close> calls the entries for \<open>insert\<close> and
  \<open>delete\<close>.
\<close>

type_synonym renderer = "operation \<Rightarrow> token list \<Rightarrow> token list \<Rightarrow> jsstring"

definition operationMap_equal :: renderer where
  "operationMap_equal op beforeTokens afterTokens =
     join (sliceTo beforeTokens (startInBefore_op op) (endInBefore_op op))"

definition operationMap_insert :: renderer where
  "operationMap_insert op beforeTokens afterTokens =
     (let val = sliceTo afterTokens (startInAfter_op op) (endInAfter_op op)
      in wrapWithTag (js ''ins'') val)"

definition operationMap_delete :: renderer where
  "operationMap_delete op beforeTokens afterTokens =
     (let val = sliceTo beforeTokens (startInBefore_op op) (endInBefore_op op)
      in wrapWithTag (js ''del'') val)"

definition operationMap_replace :: renderer where
  "operationMap_replace op beforeTokens afterTokens =
     operationMap_insert op beforeTokens afterTokens @
     operationMap_delete op beforeTokens afterTokens"

definition operationMap :: "action \<Rightarrow> renderer option" where
  "operationMap key =
     (case key of
        Equal \<Rightarrow> Some operationMap_equal
      | Insert \<Rightarrow> Some operationMap_insert
      | Delete \<Rightarrow> Some operationMap_delete
      | Replace \<Rightarrow> Some operationMap_replace
      | NoneAction \<Rightarrow> None)"

text \<open>
  \<open>diffToHTML\<close> calls \<open>this.renderOperations\<close>. The class \<open>HTMLDiff\<close> defines no method of
  that name, and nothing else assigns one: the property reads \<open>undefined\<close> and the call
  throws a \<open>TypeError\<close>.
\<close>

definition renderOperations ::
  "token list \<Rightarrow> token list \<Rightarrow> operation list \<Rightarrow> error + jsstring" where
  "renderOperations beforeTokens afterTokens operations =
     Inl (TypeError ''this.renderOperations is not a function'')"

definition diffToHTML :: "jsstring \<Rightarrow> jsstring \<Rightarrow> error + jsstring" where
  "diffToHTML before after =
     (if before = after then Inr before
      else
        let beforeTokens = htmlToTokens before;
            afterTokens = htmlToTokens after
        in case calculateOperations (Tokens beforeTokens) (Tokens afterTokens) of
             Inl e \<Rightarrow> Inl e
           | Inr operations \<Rightarrow> renderOperations beforeTokens afterTokens operations)"

text \<open>
  Modelled from the spec: the Markup Renderer of section 4.8, the method \<open>renderOperations\<close>
  that the source calls and does not define. Each operation is rendered by its entry of
  \<open>operationMap\<close>, in order, and the pieces are concatenated.
\<close>

definition renderOperations_spec ::
  "token list \<Rightarrow> token list \<Rightarrow> operation list \<Rightarrow> jsstring" where
  "renderOperations_spec beforeTokens afterTokens operations =
     concat (map (\<lambda>op. case operationMap (action_op op) of
                          None \<Rightarrow> []
                        | Some render \<Rightarrow> render op beforeTokens afterTokens) operations)"

text \<open>
  Tag-safe wrapping as the specification words it (section 4.8): the token run is read as
  alternating maximal sub-runs of tag tokens and of non-tag tokens; a non-tag sub-run is
  wrapped in \<open><tag>...</tag>\<close>, a tag sub-run is emitted verbatim. \<open>spans\<close> cuts a token
  run into these sub-runs, \<open>renderSpan\<close> emits one; \<open>spanOK\<close> says that a sub-run is not
  empty and holds tokens of its kind only, \<open>alternating\<close> that neighbours differ in kind.
\<close>

datatype span = Wrapped "token list" | Verbatim "token list"

fun spanTokens :: "span \<Rightarrow> token list" where
  "spanTokens (Wrapped ts) = ts"
| "spanTokens (Verbatim ts) = ts"

fun isWrapped :: "span \<Rightarrow> bool" where
  "isWrapped (Wrapped ts) = True"
| "isWrapped (Verbatim ts) = False"

fun renderSpan :: "jsstring \<Rightarrow> span \<Rightarrow> jsstring" where
  "renderSpan tag (Wrapped ts) = js ''<'' @ tag @ js ''>'' @ join ts @ js ''</'' @ tag @ js ''>''"
| "renderSpan tag (Verbatim ts) = join ts"

fun spans :: "token list \<Rightarrow> span list" where
  "spans [] = []"
| "spans (t # ts) =
     (if isTag t
      then (case spans ts of
              Verbatim us # rest \<Rightarrow> Verbatim (t # us) # rest
            | rest \<Rightarrow> Verbatim [t] # rest)
      else (case spans ts of
              Wrapped us # rest \<Rightarrow> Wrapped (t # us) # rest
            | rest \<Rightarrow> Wrapped [t] # rest))"

definition spanOK :: "span \<Rightarrow> bool" where
  "spanOK s =
     (spanTokens s \<noteq> [] \<and>
      (if isWrapped s then list_all (\<lambda>t. \<not> isTag t) (spanTokens s)
       else list_all isTag (spanTokens s)))"

fun alternating :: "span list \<Rightarrow> bool" where
  "alternating (s # s' # rest) = (isWrapped s \<noteq> isWrapped s' \<and> alternating (s' # rest))"
| "alternating rest = True"

text \<open>
  The parts of a token run around one of its tokens: \<open>upToLastTag\<close> is the run up to and
  with its last tag token, \<open>trailingNonTags\<close> the non-tag tokens after that.
\<close>

definition nonTag :: "token \<Rightarrow> bool" where
  "nonTag token = (\<not> isTag token)"

definition upToLastTag :: "token list \<Rightarrow> token list" where
  "upToLastTag run = rev (dropWhile nonTag (rev run))"

definition trailingNonTags :: "token list \<Rightarrow> token list" where
  "trailingNonTags run = rev (takeWhile nonTag (rev run))"

text \<open>
  In the mode \<open>tag\<close> the token in progress begins with \<open><\<close> and holds no \<open>>\<close>.
\<close>

definition inTagToken :: "tokstate \<Rightarrow> bool" where
  "inTagToken st =
     (case st of (tokens, currentToken, m) \<Rightarrow>
        m = TagMode \<longrightarrow> currentToken \<noteq> [] \<and> hd currentToken = 60 \<and> 62 \<notin> set currentToken)"

section \<open>Specification of the block matcher\<close>

text \<open>The positions of a token in a token sequence, ascending.\<close>

definition positions :: "token list \<Rightarrow> token \<Rightarrow> int list" where
  "positions inThese token = map int (filter (\<lambda>k. inThese ! k = token) [0..<length inThese])"

text \<open>
  \<open>commonRun \<dots> i j len\<close>: the \<open>len\<close> tokens from \<open>i\<close> in the before sequence and from
  \<open>j\<close> in the after sequence are pairwise equal, \<open>len\<close> is at least 1, and both runs lie
  inside the ranges \<open>[startInBefore, endInBefore)\<close> and \<open>[startInAfter, endInAfter)\<close>.
  \<open>runEnding \<dots> i j\<close> is the length of the longest such run that ends at \<open>(i, j)\<close>,
  0 if the two tokens differ.
\<close>

definition commonRun ::
  "token list \<Rightarrow> token list \<Rightarrow> int \<Rightarrow> int \<Rightarrow> int \<Rightarrow> int \<Rightarrow> int \<Rightarrow> int \<Rightarrow> int \<Rightarrow> bool" where
  "commonRun beforeTokens afterTokens startInBefore endInBefore startInAfter endInAfter i j len =
     (1 \<le> len \<and> startInBefore \<le> i \<and> i + len \<le> endInBefore \<and>
      startInAfter \<le> j \<and> j + len \<le> endInAfter \<and>
      (\<forall>k \<in> {0..<nat len}. elemAt beforeTokens (i + int k) = elemAt afterTokens (j + int k)))"

function runEnding :: "token list \<Rightarrow> token list \<Rightarrow> int \<Rightarrow> int \<Rightarrow> int \<Rightarrow> int \<Rightarrow> int" where
  "runEnding bt at sb sa i j =
     (if sb \<le> i \<and> sa \<le> j \<and> elemAt bt i = elemAt at j
      then 1 + runEnding bt at sb sa (i - 1) (j - 1)
      else 0)"
  by pat_completeness auto

termination
  by (relation "measure (\<lambda>(bt, at, sb, sa, i, j). nat (i - sb + 1))") auto

declare runEnding.simps [simp del]

text \<open>The map \<open>matchLengthAt\<close> after the row \<open>r\<close> of the outer loop.\<close>

definition rowLengths :: "token list \<Rightarrow> token list \<Rightarrow> int \<Rightarrow> int \<Rightarrow> int \<Rightarrow> int \<Rightarrow> lengthAt" where
  "rowLengths bt at sb sa ea r =
     (\<lambda>j. if sb \<le> r \<and> sa \<le> j \<and> j < ea \<and> elemAt bt r = elemAt at j
          then Some (runEnding bt at sb sa r j) else None)"

text \<open>
  The pairs of positions with equal tokens in the rows before \<open>i\<close>, and what the best
  match is with respect to a set of such pairs: the run ending at the first pair, in
  row-major order, whose run is longest.
\<close>

definition cellsBefore ::
  "token list \<Rightarrow> token list \<Rightarrow> int \<Rightarrow> int \<Rightarrow> int \<Rightarrow> int \<Rightarrow> (int \<times> int) set" where
  "cellsBefore bt at sb sa ea i =
     {(i', j'). sb \<le> i' \<and> i' < i \<and> sa \<le> j' \<and> j' < ea \<and> elemAt bt i' = elemAt at j'}"

definition firstLongest ::
  "token list \<Rightarrow> token list \<Rightarrow> int \<Rightarrow> int \<Rightarrow> (int \<times> int) set \<Rightarrow> best \<Rightarrow> bool" where
  "firstLongest bt at sb sa P b =
     (case b of (bi, bj, bl) \<Rightarrow>
        (bl = 0 \<and> P = {}) \<or>
        (\<exists>ie je. (ie, je) \<in> P \<and> bl = runEnding bt at sb sa ie je \<and>
           bi = ie - bl + 1 \<and> bj = je - bl + 1 \<and>
           (\<forall>i' j'. (i', j') \<in> P \<longrightarrow>
              runEnding bt at sb sa i' j' < bl \<or>
              (runEnding bt at sb sa i' j' = bl \<and> (ie < i' \<or> (ie = i' \<and> je \<le> j'))))))"

section \<open>Coverage of the token ranges\<close>

text \<open>
  The token ranges of an operation list, each as \<open>(start, end)\<close>: the before-ranges of the
  operations other than \<open>insert\<close>, which has none, and the after-ranges of the operations
  other than \<open>delete\<close>.
\<close>

type_synonym range = "int \<times> int option"

definition beforeRanges :: "operation list \<Rightarrow> range list" where
  "beforeRanges ops =
     map (\<lambda>op. (startInBefore_op op, endInBefore_op op))
       (filter (\<lambda>op. action_op op \<noteq> Insert) ops)"

definition afterRanges :: "operation list \<Rightarrow> range list" where
  "afterRanges ops =
     map (\<lambda>op. (startInAfter_op op, endInAfter_op op))
       (filter (\<lambda>op. action_op op \<noteq> Delete) ops)"

text \<open>
  \<open>tiles pos n ranges\<close>: the ranges, in order, are non-empty, the first starts at \<open>pos\<close>,
  each next one starts right after the one before, and the last ends at \<open>n - 1\<close>.
  \<open>partitionsRange n ranges\<close>: the ranges tile \<open>[0, n)\<close> in order, and every index below
  \<open>n\<close> lies in exactly one of them.
\<close>

fun tiles :: "int \<Rightarrow> int \<Rightarrow> range list \<Rightarrow> bool" where
  "tiles pos n [] = (pos = n)"
| "tiles pos n ((s, e) # ranges) =
     (case e of None \<Rightarrow> False | Some e' \<Rightarrow> s = pos \<and> s \<le> e' \<and> tiles (e' + 1) n ranges)"

definition inRange :: "int \<Rightarrow> range \<Rightarrow> bool" where
  "inRange k r = (case r of (s, None) \<Rightarrow> False | (s, Some e) \<Rightarrow> s \<le> k \<and> k \<le> e)"

definition partitionsRange :: "nat \<Rightarrow> range list \<Rightarrow> bool" where
  "partitionsRange n ranges =
     (tiles 0 (int n) ranges \<and>
      (\<forall>k \<in> {0..<n}. length (filter (inRange (int k)) ranges) = 1))"

text \<open>
  The matching blocks of a range form a chain: each is at least one token long, starts
  at or after the position that follows the block before it, and ends inside the range.
\<close>

fun chain :: "int \<Rightarrow> int \<Rightarrow> int \<Rightarrow> int \<Rightarrow> match list \<Rightarrow> bool" where
  "chain pb pa eb ea [] = (pb \<le> eb \<and> pa \<le> ea)"
| "chain pb pa eb ea (m # ms) =
     (endInBefore_m m = startInBefore_m m + length_m m - 1 \<and>
      endInAfter_m m = startInAfter_m m + length_m m - 1 \<and>
      1 \<le> length_m m \<and> pb \<le> startInBefore_m m \<and> pa \<le> startInAfter_m m \<and>
      chain (endInBefore_m m + 1) (endInAfter_m m + 1) eb ea ms)"

text \<open>
  The worst case as the specification words it (section 7): a single \<open>replace\<close>,
  \<open>insert\<close> or \<open>delete\<close> covering everything, and no operation for two empty sequences.
\<close>

definition coverEverything :: "token list \<Rightarrow> token list \<Rightarrow> operation list" where
  "coverEverything beforeTokens afterTokens =
     (if beforeTokens = [] \<and> afterTokens = [] then []
      else [\<lparr>action_op =
               (if beforeTokens = [] then Insert
                else if afterTokens = [] then Delete else Replace),
             startInBefore_op = 0,
             endInBefore_op =
               (if beforeTokens = [] then None else Some (int (length beforeTokens) - 1)),
             startInAfter_op = 0,
             endInAfter_op =
               (if afterTokens = [] then None else Some (int (length afterTokens) - 1))\<rparr>])"

section \<open>Tokenizer: properties\<close>

lemma concat_codePoints: "concat (codePoints s) = s"
  by (induction s rule: codePoints.induct) auto

lemma tokStep_text:
  "tokStep st char = st' \<Longrightarrow>
     concat (fst st') @ fst (snd st') = concat (fst st) @ fst (snd st) @ char"
proof -
  obtain tokens cur m where st: "st = (tokens, cur, m)"
    by (cases st) auto
  assume "tokStep st char = st'"
  then show ?thesis
    unfolding st by (cases m) (auto simp: flush_def split: if_splits)
qed

lemma foldl_tokStep_text:
  "foldl tokStep st chars = st' \<Longrightarrow>
     concat (fst st') @ fst (snd st') = concat (fst st) @ fst (snd st) @ concat chars"
proof (induction chars arbitrary: st)
  case Nil
  then show ?case by simp
next
  case (Cons c cs)
  from Cons.IH [OF Cons.prems [simplified]] tokStep_text [OF refl, of st c]
  show ?case by simp
qed

text \<open>
  C3. Tokenization is total and lossless: for every string, the tokens of \<open>htmlToTokens\<close>
  joined in order are the string itself.
\<close>

theorem htmlToTokens_lossless: "join (htmlToTokens s) = s"
proof -
  obtain tokens cur m where st: "foldl tokStep ([], [], CharMode) (codePoints s) = (tokens, cur, m)"
    by (cases "foldl tokStep ([], [], CharMode) (codePoints s)") auto
  from foldl_tokStep_text [OF st] have "concat tokens @ cur = s"
    by (simp add: concat_codePoints)
  then show ?thesis
    by (auto simp: htmlToTokens_def st join_def flush_def)
qed

section \<open>Entry points\<close>

text \<open>
  What the renderer of section 4.8 yields on the operations of scenario 2, each operation
  rendered by its entry of \<open>operationMap\<close>: the string the specification expects.
\<close>

lemma renderOperations_spec_scenario2:
  "case calculateOperations (Tokens (htmlToTokens (js ''this is original text'')))
          (Tokens (htmlToTokens (js ''this is new text''))) of
     Inl e \<Rightarrow> False
   | Inr operations \<Rightarrow>
       renderOperations_spec (htmlToTokens (js ''this is original text''))
         (htmlToTokens (js ''this is new text'')) operations =
       js ''this is <ins>new</ins><del>original</del> text''"
  by code_simp

text \<open>
  C1. For the inputs "this is original text" and "this is new text" the markup entry point
  is specified to return "this is <ins>new</ins><del>original</del> text". In the source,
  \<open>diffToHTML\<close> tokenizes, calculates the operations and then calls the method
  \<open>renderOperations\<close>, which the class does not define: on these inputs the call throws
  a \<open>TypeError\<close> and no string is returned.
\<close>

theorem diffToHTML_scenario2_throws:
  "diffToHTML (js ''this is original text'') (js ''this is new text'') =
     Inl (TypeError ''this.renderOperations is not a function'')"
  by code_simp

text \<open>
  C2. For every string \<open>s\<close>, \<open>diff(s, s)\<close> is specified to return one \<open>equal\<close> record with
  text \<open>s\<close>, length \<open>len(s)\<close> and the fields \<open>beforeStartPosition\<close>, \<open>beforeEndPosition\<close>,
  \<open>afterStartPosition\<close>, \<open>afterEndPosition\<close> spanning \<open>[0, len(s) - 1]\<close>. The fast path of
  \<open>diff\<close> returns one \<open>equal\<close> record with that text and length, whose span is held in the
  fields \<open>startPosition\<close> and \<open>endPosition\<close>: the four documented fields are absent.
\<close>

theorem diff_identical_record:
  "diff s s =
     Inr [[(''type'', Str (js ''equal'')), (''text'', Str s), (''startPosition'', Num 0),
           (''endPosition'', Num (int (length s) - 1)), (''length'', Num (int (length s)))]] \<and>
   (case diff s s of
      Inr [r] \<Rightarrow>
        field r ''beforeStartPosition'' = None \<and> field r ''beforeEndPosition'' = None \<and>
        field r ''afterStartPosition'' = None \<and> field r ''afterEndPosition'' = None
    | _ \<Rightarrow> False)"
  by (simp add: diff_def field_def)

text \<open>
  The anchor of an \<open>insert\<close> record and of a \<open>delete\<close> record, for every operation: the
  text position of the start token in the other sequence, except that a start token 0
  is replaced by the token count.
\<close>

lemma createDiffObject_insert_anchor:
  "action_op op = Insert \<Longrightarrow>
   \<exists>r. createDiffObject beforeTokens afterTokens op = [r] \<and>
       field r ''beforePosition'' =
         Some (Num (getTextPosition beforeTokens 0
                      (if startInBefore_op op = 0 then int (length beforeTokens)
                       else startInBefore_op op)))"
  by (simp add: createDiffObject_def field_def orElse_def Let_def)

lemma createDiffObject_delete_anchor:
  "action_op op = Delete \<Longrightarrow>
   \<exists>r. createDiffObject beforeTokens afterTokens op = [r] \<and>
       field r ''afterPosition'' =
         Some (Num (getTextPosition afterTokens 0
                      (if startInAfter_op op = 0 then int (length afterTokens)
                       else startInAfter_op op)))"
  by (simp add: createDiffObject_def field_def orElse_def Let_def)

text \<open>
  C5. An \<open>insert\<close> record is specified to carry in \<open>beforePosition\<close> the character position
  that follows the prior content of the before string, 0 when the gap starts at token 0,
  and a \<open>delete\<close> record the same in \<open>afterPosition\<close>. \<open>createDiffObjects\<close> computes the
  anchor from \<open>op.startInBefore || beforeTokens.length\<close>, which is the token count when the
  start is 0: diffing "b" against "a b" anchors the insertion of "a " at position 1, the
  end of the before string, and diffing "a b" against "b" anchors the deletion at 1.
\<close>

theorem diff_anchor_at_token_0:
  "diff (js ''b'') (js ''a b'') =
     Inr [[(''type'', Str (js ''insert'')), (''text'', Str (js ''a '')),
           (''afterStartPosition'', Num 0), (''afterEndPosition'', Num 1),
           (''length'', Num 2), (''beforePosition'', Num 1)],
          [(''type'', Str (js ''equal'')), (''text'', Str (js ''b'')),
           (''beforeStartPosition'', Num 0), (''beforeEndPosition'', Num 0),
           (''afterStartPosition'', Num 2), (''afterEndPosition'', Num 2),
           (''length'', Num 1)]] \<and>
   diff (js ''a b'') (js ''b'') =
     Inr [[(''type'', Str (js ''delete'')), (''text'', Str (js ''a '')),
           (''beforeStartPosition'', Num 0), (''beforeEndPosition'', Num 1),
           (''length'', Num 2), (''afterPosition'', Num 1)],
          [(''type'', Str (js ''equal'')), (''text'', Str (js ''b'')),
           (''beforeStartPosition'', Num 2), (''beforeEndPosition'', Num 2),
           (''afterStartPosition'', Num 0), (''afterEndPosition'', Num 0),
           (''length'', Num 1)]]"
  by code_simp

section \<open>Tokenizer: the tag mode\<close>

text \<open>
  C8 as stated: \<open><\<close> starts a new tag token in every mode, so that \<open><\<close> read inside a tag
  token ends that token. The tokenizer keeps "<a<b>" as one token.
\<close>

theorem tokenizer_lt_in_tag_counterexample:
  "htmlToTokens (js ''<a<b>'') = [js ''<a<b>''] \<and>
   htmlToTokens (js ''<a<b>'') \<noteq> [js ''<a'', js ''<b>'']"
  by code_simp

lemma not_isWhitespace_gt: "\<not> isWhitespace (js ''>'')"
  by code_simp

text \<open>
  C8, amended. In the modes \<open>char\<close> and \<open>whitespace\<close>, \<open><\<close> flushes the token in progress
  and starts a tag token. In the mode \<open>tag\<close> every character other than \<open>>\<close>, also \<open><\<close>, is
  appended to the tag token; \<open>>\<close> is appended and closes the token, and the next mode is
  chosen by classifying \<open>>\<close> as whitespace or not, which makes it \<open>char\<close>.
\<close>

theorem tokStep_tag_rules:
  "(m \<noteq> TagMode \<longrightarrow>
      tokStep (tokens, currentToken, m) (js ''<'') = (flush tokens currentToken, js ''<'', TagMode)) \<and>
   (char \<noteq> js ''>'' \<longrightarrow>
      tokStep (tokens, currentToken, TagMode) char = (tokens, currentToken @ char, TagMode)) \<and>
   tokStep (tokens, currentToken, TagMode) (js ''>'') =
     (tokens @ [currentToken @ js ''>''], [],
      if isWhitespace (js ''>'') then WhitespaceMode else CharMode) \<and>
   \<not> isWhitespace (js ''>'')"
  using not_isWhitespace_gt
  by (cases m) (simp_all add: isStartOfTag_def isEndOfTag_def js_def)

theorem tokStep_tag_rules_witness:
  "CharMode \<noteq> TagMode \<and>
   tokStep ([js ''a''], js ''b'', CharMode) (js ''<'') = ([js ''a'', js ''b''], js ''<'', TagMode) \<and>
   js ''<'' \<noteq> js ''>'' \<and>
   tokStep ([], js ''<a'', TagMode) (js ''<'') = ([], js ''<a<'', TagMode)"
  using tokStep_tag_rules [of CharMode "[js ''a'']" "js ''b''" "js ''<''"]
        tokStep_tag_rules [of TagMode "[]" "js ''<a''" "js ''<''"]
  by (simp add: flush_def js_def)

section \<open>Markup renderer: tag safety\<close>

lemma spans_tokens: "concat (map spanTokens (spans ts)) = ts"
  by (induction ts) (auto split: list.splits span.splits)

lemma spanOK_simps:
  "spanOK (Wrapped ts) = (ts \<noteq> [] \<and> list_all (\<lambda>t. \<not> isTag t) ts)"
  "spanOK (Verbatim ts) = (ts \<noteq> [] \<and> list_all isTag ts)"
  by (simp_all add: spanOK_def)

lemma consecutiveWhere_takeWhile_add:
  "consecutiveWhere (int a + int b) content p = takeWhile p (drop (a + b) content)"
  using consecutiveWhere_takeWhile [of "a + b" content p] by simp

lemma spans_ok: "list_all spanOK (spans ts)"
proof (induction ts)
  case Nil
  then show ?case by simp
next
  case (Cons t ts)
  show ?case
  proof (cases "spans ts")
    case Nil
    then show ?thesis by (simp add: spanOK_simps)
  next
    case (Cons s rest)
    with Cons.IH have "spanOK s" "list_all spanOK rest" by simp_all
    with Cons show ?thesis
      by (cases s) (simp_all add: spanOK_simps)
  qed
qed

lemma alternating_head:
  "isWrapped s = isWrapped s' \<Longrightarrow> alternating (s # rest) = alternating (s' # rest)"
  by (cases rest) auto

lemma spans_alternating: "alternating (spans ts)"
proof (induction ts)
  case Nil
  then show ?case by simp
next
  case (Cons t ts)
  show ?case
  proof (cases "spans ts")
    case Nil
    then show ?thesis by simp
  next
    case (Cons s rest)
    with Cons.IH show ?thesis
      by (cases s) (auto simp: alternating_head [of "Wrapped (t # us)" "Wrapped us" for us]
          alternating_head [of "Verbatim (t # us)" "Verbatim us" for us])
  qed
qed

lemma spans_head:
  "ts \<noteq> [] \<Longrightarrow> \<exists>us rest. spans ts = (if isTag (hd ts) then Verbatim us else Wrapped us) # rest"
  by (cases ts) (auto split: list.splits span.splits)

lemma spans_nonTags:
  assumes "ys = [] \<or> isTag (hd ys)"
  shows "nt \<noteq> [] \<Longrightarrow> list_all (\<lambda>t. \<not> isTag t) nt \<Longrightarrow> spans (nt @ ys) = Wrapped nt # spans ys"
proof (induction nt)
  case Nil
  then show ?case by simp
next
  case (Cons t nt)
  show ?case
  proof (cases "nt = []")
    case True
    from assms spans_head [of ys] have "spans ys = [] \<or> (\<exists>us rest. spans ys = Verbatim us # rest)"
      by (cases ys) auto
    with True Cons.prems show ?thesis by auto
  next
    case False
    with Cons show ?thesis by simp
  qed
qed

lemma spans_tags:
  assumes "ys = [] \<or> \<not> isTag (hd ys)"
  shows "tg \<noteq> [] \<Longrightarrow> list_all isTag tg \<Longrightarrow> spans (tg @ ys) = Verbatim tg # spans ys"
proof (induction tg)
  case Nil
  then show ?case by simp
next
  case (Cons t tg)
  show ?case
  proof (cases "tg = []")
    case True
    from assms spans_head [of ys] have "spans ys = [] \<or> (\<exists>us rest. spans ys = Wrapped us # rest)"
      by (cases ys) auto
    with True Cons.prems show ?thesis by auto
  next
    case False
    with Cons show ?thesis by simp
  qed
qed

lemma dropWhile_head: "dropWhile p xs = [] \<or> \<not> p (hd (dropWhile p xs))"
  by (metis hd_dropWhile)

lemma spans_split_nonTags:
  "spans xs =
     (if takeWhile (\<lambda>t. \<not> isTag t) xs = [] then [] else [Wrapped (takeWhile (\<lambda>t. \<not> isTag t) xs)]) @
     spans (dropWhile (\<lambda>t. \<not> isTag t) xs)"
proof (cases "takeWhile (\<lambda>t. \<not> isTag t) xs = []")
  case True
  then have "dropWhile (\<lambda>t. \<not> isTag t) xs = xs"
    by (metis append_Nil takeWhile_dropWhile_id)
  with True show ?thesis by simp
next
  case False
  have "dropWhile (\<lambda>t. \<not> isTag t) xs = [] \<or> isTag (hd (dropWhile (\<lambda>t. \<not> isTag t) xs))"
    using dropWhile_head [of "\<lambda>t. \<not> isTag t" xs] by simp
  from spans_nonTags [OF this False, of ] have
    "spans (takeWhile (\<lambda>t. \<not> isTag t) xs @ dropWhile (\<lambda>t. \<not> isTag t) xs) =
       Wrapped (takeWhile (\<lambda>t. \<not> isTag t) xs) # spans (dropWhile (\<lambda>t. \<not> isTag t) xs)"
    by (simp add: list_all_iff) (metis set_takeWhileD)
  with False show ?thesis by simp
qed

lemma spans_split_tags:
  "spans xs =
     (if takeWhile isTag xs = [] then [] else [Verbatim (takeWhile isTag xs)]) @
     spans (dropWhile isTag xs)"
proof (cases "takeWhile isTag xs = []")
  case True
  then have "dropWhile isTag xs = xs"
    by (metis append_Nil takeWhile_dropWhile_id)
  with True show ?thesis by simp
next
  case False
  have "dropWhile isTag xs = [] \<or> \<not> isTag (hd (dropWhile isTag xs))"
    by (rule dropWhile_head)
  from spans_tags [OF this False] have
    "spans (takeWhile isTag xs @ dropWhile isTag xs) =
       Verbatim (takeWhile isTag xs) # spans (dropWhile isTag xs)"
    by (simp add: list_all_iff) (metis set_takeWhileD)
  with False show ?thesis by simp
qed

lemma drop_takeWhile_length: "drop (n + length (takeWhile p (drop n xs))) xs = dropWhile p (drop n xs)"
  by (metis add.commute drop_drop dropWhile_eq_drop)

lemma wrapLoop_spans:
  "wrapLoop tag content position rendering =
     rendering @ concat (map (renderSpan tag) (spans (drop position content)))"
proof (induction tag content position rendering rule: wrapLoop.induct)
  case (1 tag content position rendering)
  let ?rest = "drop position content"
  let ?nt = "takeWhile (\<lambda>t. \<not> isTag t) ?rest"
  let ?r1 = "dropWhile (\<lambda>t. \<not> isTag t) ?rest"
  let ?p1 = "position + length ?nt"
  let ?rendering1 = "if length ?nt > 0
       then rendering @ js ''<'' @ tag @ js ''>'' @ join ?nt @ js ''</'' @ tag @ js ''>''
       else rendering"
  have r1: "drop ?p1 content = ?r1" by (rule drop_takeWhile_length)
  have wrapped: "?rendering1 =
      rendering @ concat (map (renderSpan tag) (if ?nt = [] then [] else [Wrapped ?nt]))"
    by simp
  show ?case
  proof (cases "position < length content")
    case False
    then show ?thesis by (simp add: wrapLoop.simps [of tag content position])
  next
    case inside: True
    show ?thesis
    proof (cases "?p1 \<ge> length content")
      case True
      then have "?r1 = []" using r1 by (metis drop_all)
      then have "spans ?r1 = []" by (simp only: spans.simps)
      then have "spans ?rest = (if ?nt = [] then [] else [Wrapped ?nt])"
        using spans_split_nonTags [of ?rest] by (simp only: append_Nil2)
      moreover have "wrapLoop tag content position rendering = ?rendering1"
        using inside True
        by (subst wrapLoop.simps)
           (simp add: consecutiveWhere_takeWhile consecutiveWhere_takeWhile_add Let_def
              cong: if_cong)
      ultimately show ?thesis using wrapped by simp
    next
      case False
      let ?tg = "takeWhile isTag ?r1"
      let ?p2 = "?p1 + length ?tg"
      have r2: "drop ?p2 content = dropWhile isTag ?r1"
        using drop_takeWhile_length [of ?p1 isTag content] r1 by simp
      have step: "wrapLoop tag content position rendering =
          wrapLoop tag content ?p2 (?rendering1 @ join ?tg)"
        using inside False r1
        by (subst wrapLoop.simps)
           (simp add: consecutiveWhere_takeWhile consecutiveWhere_takeWhile_add Let_def
              cong: if_cong)
      have IH: "wrapLoop tag content ?p2 (?rendering1 @ join ?tg) =
          (?rendering1 @ join ?tg) @ concat (map (renderSpan tag) (spans (drop ?p2 content)))"
      proof -
        have cond: "\<not> length content \<le> position +
            length (consecutiveWhere (int position) content (\<lambda>token. \<not> isTag token))"
          using False by (simp add: consecutiveWhere_takeWhile)
        from "1.IH" [OF inside refl refl refl cond refl refl refl] r1 show ?thesis
          by (simp add: consecutiveWhere_takeWhile consecutiveWhere_takeWhile_add cong: if_cong)
      qed
      have sp: "spans ?rest = (if ?nt = [] then [] else [Wrapped ?nt]) @
          (if ?tg = [] then [] else [Verbatim ?tg]) @ spans (dropWhile isTag ?r1)"
        using spans_split_nonTags [of ?rest] spans_split_tags [of ?r1] by simp
      have "wrapLoop tag content position rendering =
          (?rendering1 @ join ?tg) @ concat (map (renderSpan tag) (spans (dropWhile isTag ?r1)))"
        using step IH r2 by (simp only:)
      also have "\<dots> = rendering @ concat (map (renderSpan tag) (spans ?rest))"
        unfolding sp by (simp add: join_def)
      finally show ?thesis .
    qed
  qed
qed

text \<open>
  C9. Tag safety of the wrapper: for every tag name and every token run, the output of
  \<open>wrapWithTag\<close> is the rendering of the sub-runs of the token run, in order; the sub-runs
  make up the run, none is empty, a wrapped one holds only tokens that do not match the
  tag pattern, a verbatim one only tokens that match it, and neighbouring sub-runs differ
  in kind, so that each is maximal. A token matching the tag pattern is therefore never
  inside a wrapper.
\<close>

theorem wrapWithTag_tag_safe:
  "wrapWithTag tag content = concat (map (renderSpan tag) (spans content)) \<and>
   concat (map spanTokens (spans content)) = content \<and>
   list_all spanOK (spans content) \<and>
   alternating (spans content)"
  by (simp add: wrapWithTag_def wrapLoop_spans spans_tokens spans_ok spans_alternating)

theorem wrapWithTag_tag_safe_witness:
  "wrapWithTag (js ''ins'') [js ''<p>'', js ''hello'', js '' world'', js ''</p>''] =
     js ''<p><ins>hello world</ins></p>'' \<and>
   spans [js ''<p>'', js ''hello'', js '' world'', js ''</p>''] =
     [Verbatim [js ''<p>''], Wrapped [js ''hello'', js '' world''], Verbatim [js ''</p>'']]"
proof -
  have sp: "spans [js ''<p>'', js ''hello'', js '' world'', js ''</p>''] =
     [Verbatim [js ''<p>''], Wrapped [js ''hello'', js '' world''], Verbatim [js ''</p>'']]"
    by code_simp
  from wrapWithTag_tag_safe [of "js ''ins''" "[js ''<p>'', js ''hello'', js '' world'', js ''</p>'']"]
  show ?thesis
    unfolding sp by (simp add: join_def js_def)
qed

lemma isTag_unterminated:
  assumes "62 \<notin> set rest"
  shows "\<not> isTag (60 # rest)"
proof -
  have "takeWhile (\<lambda>c. c \<noteq> 62) rest = rest"
    using assms by (simp add: takeWhile_eq_all_conv) blast
  then have "dropWhile (\<lambda>c. c \<noteq> 62) rest = []"
    by (metis append_self_conv takeWhile_dropWhile_id)
  moreover have "dropWhile reSpace (60 # rest) = 60 # rest"
    by (simp add: reSpace_def)
  ultimately show ?thesis
    unfolding isTag_def by (simp only: list.case simp_thms)
qed

lemma spans_append_boundary:
  "xs \<noteq> [] \<Longrightarrow> zs \<noteq> [] \<Longrightarrow> isTag (last xs) \<noteq> isTag (hd zs) \<Longrightarrow>
   spans (xs @ zs) = spans xs @ spans zs"
proof (induction xs)
  case Nil
  then show ?case by simp
next
  case (Cons x xs)
  show ?case
  proof (cases "xs = []")
    case True
    from spans_head [OF Cons.prems(2)] obtain us rest where
      "spans zs = (if isTag (hd zs) then Verbatim us else Wrapped us) # rest"
      by blast
    with True Cons.prems(3) show ?thesis by auto
  next
    case False
    with Cons have IH: "spans (xs @ zs) = spans xs @ spans zs" by simp
    from spans_head [OF False] obtain us rest where
      "spans xs = (if isTag (hd xs) then Verbatim us else Wrapped us) # rest"
      by blast
    with IH show ?thesis by auto
  qed
qed

lemma wrapWithTag_spans: "wrapWithTag tag content = concat (map (renderSpan tag) (spans content))"
  by (simp add: wrapWithTag_def wrapLoop_spans)

lemma spans_around_nonTags:
  assumes xs: "xs = [] \<or> isTag (last xs)" and ys: "ys = [] \<or> isTag (hd ys)"
    and nt: "nt \<noteq> []" "list_all (\<lambda>t. \<not> isTag t) nt"
  shows "spans (xs @ nt @ ys) = spans xs @ Wrapped nt # spans ys"
proof (cases "xs = []")
  case True
  with spans_nonTags [OF ys nt] show ?thesis by simp
next
  case False
  with xs have "isTag (last xs)" by simp
  moreover from nt have "\<not> isTag (hd (nt @ ys))" by (cases nt) simp_all
  ultimately have "spans (xs @ nt @ ys) = spans xs @ spans (nt @ ys)"
    using False nt(1) by (intro spans_append_boundary) simp_all
  with spans_nonTags [OF ys nt] show ?thesis by simp
qed

lemma upToLastTag_split: "run = upToLastTag run @ trailingNonTags run"
  unfolding upToLastTag_def trailingNonTags_def
  by (metis rev_append rev_rev_ident takeWhile_dropWhile_id)

lemma upToLastTag_last: "upToLastTag run = [] \<or> isTag (last (upToLastTag run))"
proof (cases "dropWhile nonTag (rev run) = []")
  case True
  then show ?thesis by (simp add: upToLastTag_def)
next
  case False
  then have "\<not> nonTag (hd (dropWhile nonTag (rev run)))"
    by (rule hd_dropWhile)
  with False show ?thesis
    by (simp add: upToLastTag_def last_rev nonTag_def)
qed

lemma trailingNonTags_all: "list_all (\<lambda>t. \<not> isTag t) (trailingNonTags run)"
  unfolding trailingNonTags_def list_all_iff
  by (auto simp: nonTag_def dest: set_takeWhileD)

lemma codePoints_shape:
  "c \<in> set (codePoints s) \<Longrightarrow> (\<exists>u. c = [u]) \<or> 62 \<notin> set c"
  by (induction s rule: codePoints.induct)
     (auto simp: isHighSurrogate_def isLowSurrogate_def split: if_splits)

lemma tokStep_inTagToken:
  assumes "inTagToken st" and "(\<exists>u. c = [u]) \<or> 62 \<notin> set c"
  shows "inTagToken (tokStep st c)"
proof -
  obtain tokens cur m where st: "st = (tokens, cur, m)" by (cases st) auto
  from assms show ?thesis
    unfolding st
    by (cases m) (auto simp: inTagToken_def isEndOfTag_def isStartOfTag_def)
qed

lemma foldl_tokStep_inTagToken:
  "inTagToken st \<Longrightarrow> \<forall>c \<in> set chars. (\<exists>u. c = [u]) \<or> 62 \<notin> set c \<Longrightarrow>
   inTagToken (foldl tokStep st chars)"
  by (induction chars arbitrary: st) (simp_all add: tokStep_inTagToken)

text \<open>
  C10. A token that begins with \<open><\<close> and holds no \<open>>\<close> is what the tokenizer flushes at
  the end of the input for an unterminated tag: when the loop ends in the mode \<open>tag\<close>,
  the last token returned is the token in progress, which is such a token. It does not
  match the tag pattern of \<open>isTag\<close>, and in every token run \<open>wrapWithTag\<close> treats it as
  ordinary text: it is emitted inside one wrapper together with the non-tag tokens
  around it, between the renderings of the run up to the last tag token before it and
  of the run from the first tag token after it.
\<close>

theorem unterminated_tag_is_wrapped:
  "(foldl tokStep ([], [], CharMode) (codePoints html) = (tokens, currentToken, TagMode) \<longrightarrow>
      htmlToTokens html = tokens @ [currentToken] \<and>
      currentToken \<noteq> [] \<and> hd currentToken = 60 \<and> 62 \<notin> set currentToken) \<and>
   (t \<noteq> [] \<and> hd t = 60 \<and> 62 \<notin> set t \<longrightarrow>
      \<not> isTag t \<and>
      wrapWithTag tag (run @ t # rest) =
        wrapWithTag tag (upToLastTag run) @
        js ''<'' @ tag @ js ''>'' @
        join (trailingNonTags run) @ t @ join (takeWhile nonTag rest) @
        js ''</'' @ tag @ js ''>'' @
        wrapWithTag tag (dropWhile nonTag rest)) \<and>
   wrapWithTag tag [] = []"
proof -
  have tokenizer: "htmlToTokens html = tokens @ [currentToken] \<and>
      currentToken \<noteq> [] \<and> hd currentToken = 60 \<and> 62 \<notin> set currentToken"
    if final: "foldl tokStep ([], [], CharMode) (codePoints html) = (tokens, currentToken, TagMode)"
  proof -
    have "inTagToken (foldl tokStep ([], [], CharMode) (codePoints html))"
      by (rule foldl_tokStep_inTagToken) (auto simp: inTagToken_def dest: codePoints_shape)
    with final have "currentToken \<noteq> [] \<and> hd currentToken = 60 \<and> 62 \<notin> set currentToken"
      by (simp add: inTagToken_def)
    with final show ?thesis
      by (simp add: htmlToTokens_def flush_def)
  qed
  have renderer: "\<not> isTag t \<and>
      wrapWithTag tag (run @ t # rest) =
        wrapWithTag tag (upToLastTag run) @
        js ''<'' @ tag @ js ''>'' @
        join (trailingNonTags run) @ t @ join (takeWhile nonTag rest) @
        js ''</'' @ tag @ js ''>'' @
        wrapWithTag tag (dropWhile nonTag rest)"
    if t: "t \<noteq> [] \<and> hd t = 60 \<and> 62 \<notin> set t"
  proof -
    from t obtain body where "t = 60 # body" "62 \<notin> set body"
      by (cases t) auto
    then have nontag: "\<not> isTag t"
      by (simp add: isTag_unterminated)
    let ?xs = "upToLastTag run" and ?us = "trailingNonTags run"
    let ?vs = "takeWhile nonTag rest" and ?ys = "dropWhile nonTag rest"
    let ?nt = "?us @ t # ?vs"
    have content: "run @ t # rest = ?xs @ ?nt @ ?ys"
      using upToLastTag_split [of run] by simp
    have ys: "?ys = [] \<or> isTag (hd ?ys)"
      using hd_dropWhile [of nonTag rest] by (auto simp: nonTag_def)
    have all: "list_all (\<lambda>t. \<not> isTag t) ?nt"
      using trailingNonTags_all [of run] nontag
      by (auto simp: list_all_iff nonTag_def dest: set_takeWhileD)
    have "spans (?xs @ ?nt @ ?ys) = spans ?xs @ Wrapped ?nt # spans ?ys"
      by (rule spans_around_nonTags [OF upToLastTag_last ys _ all]) simp
    then have "wrapWithTag tag (run @ t # rest) =
        wrapWithTag tag ?xs @ js ''<'' @ tag @ js ''>'' @
        join ?us @ t @ join ?vs @ js ''</'' @ tag @ js ''>'' @ wrapWithTag tag ?ys"
      unfolding content by (simp add: wrapWithTag_spans join_def)
    with nontag show ?thesis by simp
  qed
  have empty: "wrapWithTag tag [] = []"
    by (simp add: wrapWithTag_spans)
  from tokenizer renderer empty show ?thesis by blast
qed

theorem unterminated_tag_is_wrapped_witness:
  "foldl tokStep ([], [], CharMode) (codePoints (js ''a <b'')) =
     ([js ''a'', js '' ''], js ''<b'', TagMode) \<and>
   htmlToTokens (js ''a <b'') = [js ''a'', js '' '', js ''<b''] \<and>
   js ''<b'' \<noteq> [] \<and> hd (js ''<b'') = 60 \<and> 62 \<notin> set (js ''<b'') \<and>
   \<not> isTag (js ''<b'') \<and>
   wrapWithTag (js ''ins'') [js '' '', js ''<b''] = js ''<ins> <b</ins>'' \<and>
   wrapWithTag (js ''ins'') [js ''<p>'', js ''x'', js ''<b'', js ''y'', js ''</p>''] =
     js ''<p><ins>x<by</ins></p>''"
proof -
  have final: "foldl tokStep ([], [], CharMode) (codePoints (js ''a <b'')) =
     ([js ''a'', js '' ''], js ''<b'', TagMode)"
    by code_simp
  have h: "js ''<b'' \<noteq> [] \<and> hd (js ''<b'') = 60 \<and> 62 \<notin> set (js ''<b'')"
    by (simp add: js_def)
  have parts1: "upToLastTag [js '' ''] = []" "trailingNonTags [js '' ''] = [js '' '']"
      "takeWhile nonTag [] = []" "dropWhile nonTag ([]::token list) = []"
    by code_simp+
  have parts2: "upToLastTag [js ''<p>'', js ''x''] = [js ''<p>'']"
      "trailingNonTags [js ''<p>'', js ''x''] = [js ''x'']"
      "takeWhile nonTag [js ''y'', js ''</p>''] = [js ''y'']"
      "dropWhile nonTag [js ''y'', js ''</p>''] = [js ''</p>'']"
    by code_simp+
  have tags: "wrapWithTag (js ''ins'') [js ''<p>''] = js ''<p>''"
      "wrapWithTag (js ''ins'') [js ''</p>''] = js ''</p>''"
    by code_simp+
  note thm1 = unterminated_tag_is_wrapped
      [of "js ''a <b''" "[js ''a'', js '' '']" "js ''<b''" "js ''<b''" "js ''ins''" "[js '' '']" "[]"]
  note thm2 = unterminated_tag_is_wrapped
      [of "js ''a <b''" "[js ''a'', js '' '']" "js ''<b''" "js ''<b''" "js ''ins''"
          "[js ''<p>'', js ''x'']" "[js ''y'', js ''</p>'']"]
  from thm1 final h have a: "htmlToTokens (js ''a <b'') = [js ''a'', js '' '', js ''<b'']"
      "\<not> isTag (js ''<b'')" "wrapWithTag (js ''ins'') [] = []"
    by simp_all
  from thm1 h have "wrapWithTag (js ''ins'') ([js '' ''] @ js ''<b'' # []) =
      wrapWithTag (js ''ins'') [] @ js ''<'' @ js ''ins'' @ js ''>'' @
        join [js '' ''] @ js ''<b'' @ join [] @ js ''</'' @ js ''ins'' @ js ''>'' @
        wrapWithTag (js ''ins'') []"
    unfolding parts1 by blast
  then have b: "wrapWithTag (js ''ins'') [js '' '', js ''<b''] = js ''<ins> <b</ins>''"
    unfolding a(3) by (simp add: join_def js_def)
  from thm2 h have "wrapWithTag (js ''ins'') ([js ''<p>'', js ''x''] @ js ''<b'' # [js ''y'', js ''</p>'']) =
      wrapWithTag (js ''ins'') [js ''<p>''] @ js ''<'' @ js ''ins'' @ js ''>'' @
        join [js ''x''] @ js ''<b'' @ join [js ''y''] @ js ''</'' @ js ''ins'' @ js ''>'' @
        wrapWithTag (js ''ins'') [js ''</p>'']"
    unfolding parts2 by blast
  then have c: "wrapWithTag (js ''ins'') [js ''<p>'', js ''x'', js ''<b'', js ''y'', js ''</p>''] =
     js ''<p><ins>x<by</ins></p>''"
    unfolding tags by (simp add: join_def js_def)
  from final a b c h show ?thesis by blast
qed

section \<open>Token index: properties\<close>

lemma indexOf_step:
  "indexOf xs x (int n) =
     (if n < length xs then (if xs ! n = x then int n else indexOf xs x (int (n + 1))) else - 1)"
proof -
  have "nat (1 + int n) = Suc n" by simp
  then show ?thesis
    by (simp add: indexOf_def upt_conv_Cons)
qed

lemma collectIndexes_from:
  "collectIndexes xs x (indexOf xs x (int n)) found =
     found @ map int (filter (\<lambda>k. xs ! k = x) [n..<length xs])"
proof (induction "length xs - n" arbitrary: n found)
  case 0
  then have "indexOf xs x (int n) = - 1"
    by (subst indexOf_step) simp
  with 0 show ?case by (simp add: collectIndexes.simps)
next
  case (Suc d)
  then have n: "n < length xs" and d: "d = length xs - (n + 1)" by simp_all
  have upt: "[n..<length xs] = n # [n + 1..<length xs]"
    using n by (simp add: upt_conv_Cons)
  show ?case
  proof (cases "xs ! n = x")
    case True
    then have "indexOf xs x (int n) = int n"
      using n by (subst indexOf_step) simp
    then have "collectIndexes xs x (indexOf xs x (int n)) found =
        collectIndexes xs x (indexOf xs x (int (n + 1))) (found @ [int n])"
      by (subst collectIndexes.simps) (simp add: add.commute)
    also have "\<dots> = (found @ [int n]) @ map int (filter (\<lambda>k. xs ! k = x) [n + 1..<length xs])"
      by (rule Suc.hyps(1) [OF d])
    finally show ?thesis using True by (simp add: upt)
  next
    case False
    then have "indexOf xs x (int n) = indexOf xs x (int (n + 1))"
      using n by (subst indexOf_step) simp
    with Suc.hyps(1) [OF d, of found] False show ?thesis by (simp add: upt)
  qed
qed

lemma collectIndexes_positions:
  "collectIndexes inThese token (indexOf inThese token 0) [] = positions inThese token"
  using collectIndexes_from [of inThese token 0 "[]"] by (simp add: positions_def)

lemma foldl_index:
  "foldl (\<lambda>index token. index(token \<mapsto> f token)) m ts token =
     (if token \<in> set ts then Some (f token) else m token)"
  by (induction ts arbitrary: m) auto

lemma createIndex_lookup:
  "createIndex findThese inThese token =
     (if token \<in> set findThese then Some (positions inThese token) else None)"
  unfolding createIndex_def collectIndexes_positions
  by (rule foldl_index [where f = "positions inThese" and m = Map.empty, simplified])

lemma locationsInAfter_createIndex:
  "0 \<le> i \<Longrightarrow> i < int (length bt) \<Longrightarrow>
   locationsInAfter bt (createIndex bt at) i = positions at (bt ! nat i)"
  by (simp add: locationsInAfter_def elemAt_def createIndex_lookup)

lemma positions_sorted: "sorted_wrt (<) (positions xs x)"
  unfolding positions_def
  by (simp add: sorted_wrt_map sorted_wrt_filter)

lemma positions_set:
  "set (positions xs x) = {j. 0 \<le> j \<and> j < int (length xs) \<and> xs ! nat j = x}"
proof -
  have "\<exists>k<length xs. xs ! k = xs ! nat j \<and> j = int k" if "0 \<le> j" "j < int (length xs)" for j
    using that by (intro exI [of _ "nat j"]) simp
  then show ?thesis
    unfolding positions_def by (auto simp: image_iff)
qed

section \<open>Block matcher: the longest run, first found\<close>

lemma runEnding_nonneg: "0 \<le> runEnding bt at sb sa i j"
  by (induction bt at sb sa i j rule: runEnding.induct) (subst runEnding.simps, simp)

lemma runEnding_cell:
  "sb \<le> i \<Longrightarrow> sa \<le> j \<Longrightarrow> elemAt bt i = elemAt at j \<Longrightarrow>
   runEnding bt at sb sa i j = 1 + runEnding bt at sb sa (i - 1) (j - 1)"
  by (subst runEnding.simps) simp

lemma runEnding_zero:
  "\<not> (sb \<le> i \<and> sa \<le> j \<and> elemAt bt i = elemAt at j) \<Longrightarrow> runEnding bt at sb sa i j = 0"
  by (subst runEnding.simps) auto

lemma runEnding_pos:
  "sb \<le> i \<Longrightarrow> sa \<le> j \<Longrightarrow> elemAt bt i = elemAt at j \<Longrightarrow> 1 \<le> runEnding bt at sb sa i j"
  using runEnding_nonneg [of bt at sb sa "i - 1" "j - 1"] by (simp add: runEnding_cell)

lemma runEnding_back:
  "0 \<le> k \<Longrightarrow> k < runEnding bt at sb sa i j \<Longrightarrow>
   elemAt bt (i - k) = elemAt at (j - k) \<and> sb \<le> i - k \<and> sa \<le> j - k"
proof (induction bt at sb sa i j arbitrary: k rule: runEnding.induct)
  case (1 bt at sb sa i j)
  show ?case
  proof (cases "sb \<le> i \<and> sa \<le> j \<and> elemAt bt i = elemAt at j")
    case False
    then have "runEnding bt at sb sa i j = 0"
      by (rule runEnding_zero)
    with "1.prems" show ?thesis by simp
  next
    case True
    then have r: "runEnding bt at sb sa i j = 1 + runEnding bt at sb sa (i - 1) (j - 1)"
      by (simp add: runEnding_cell)
    show ?thesis
    proof (cases "k = 0")
      case True
      with \<open>sb \<le> i \<and> sa \<le> j \<and> elemAt bt i = elemAt at j\<close> show ?thesis by simp
    next
      case False
      with "1.prems" r have "0 \<le> k - 1" "k - 1 < runEnding bt at sb sa (i - 1) (j - 1)"
        by simp_all
      from "1.IH" [OF True this] show ?thesis by (simp add: algebra_simps)
    qed
  qed
qed

lemma runEnding_is_run:
  assumes "runEnding bt at sb sa i j = len" and "1 \<le> len" and "i < eb" and "j < ea"
  shows "commonRun bt at sb eb sa ea (i - len + 1) (j - len + 1) len"
proof -
  have "elemAt bt (i - len + 1 + int k) = elemAt at (j - len + 1 + int k)" if "k < nat len" for k
  proof -
    from that assms have "0 \<le> len - 1 - int k" "len - 1 - int k < runEnding bt at sb sa i j"
      by simp_all
    from runEnding_back [OF this] show ?thesis by (simp add: algebra_simps)
  qed
  moreover from runEnding_back [of "len - 1" bt at sb sa i j] assms
  have "sb \<le> i - len + 1" "sa \<le> j - len + 1" by simp_all
  ultimately show ?thesis
    using assms by (simp add: commonRun_def)
qed

lemma run_le_runEnding:
  "sb \<le> i \<Longrightarrow> sa \<le> j \<Longrightarrow>
   \<forall>k < n. elemAt bt (i + int k) = elemAt at (j + int k) \<Longrightarrow>
   int n \<le> runEnding bt at sb sa (i + int n - 1) (j + int n - 1)"
proof (induction n)
  case 0
  then show ?case by (simp add: runEnding_nonneg)
next
  case (Suc n)
  then have "int n \<le> runEnding bt at sb sa (i + int n - 1) (j + int n - 1)" by simp
  moreover have "runEnding bt at sb sa (i + int n) (j + int n) =
      1 + runEnding bt at sb sa (i + int n - 1) (j + int n - 1)"
    using Suc.prems by (intro runEnding_cell) simp_all
  ultimately show ?case by simp
qed

lemma commonRun_le_runEnding:
  assumes "commonRun bt at sb eb sa ea i j len"
  shows "len \<le> runEnding bt at sb sa (i + len - 1) (j + len - 1)"
proof -
  from assms have "sb \<le> i" "sa \<le> j" "1 \<le> len"
    and "\<forall>k < nat len. elemAt bt (i + int k) = elemAt at (j + int k)"
    by (simp_all add: commonRun_def)
  from run_le_runEnding [OF this(1,2,4)] \<open>1 \<le> len\<close> show ?thesis by simp
qed

lemma rowLengths_step:
  assumes "sb \<le> i" "sa \<le> j" "j < ea" "elemAt bt i = elemAt at j"
  shows "orZero (rowLengths bt at sb sa ea (i - 1) (j - 1)) + 1 = runEnding bt at sb sa i j"
proof (cases "sb \<le> i - 1 \<and> sa \<le> j - 1 \<and> elemAt bt (i - 1) = elemAt at (j - 1)")
  case True
  with assms show ?thesis
    by (simp add: rowLengths_def orZero_def runEnding_cell)
next
  case False
  then have "runEnding bt at sb sa (i - 1) (j - 1) = 0"
    by (rule runEnding_zero)
  with False assms show ?thesis
    by (auto simp: rowLengths_def orZero_def runEnding_cell)
qed

lemma firstLongest_pick:
  assumes inv: "firstLongest bt at sb sa P (bi, bj, bl)"
    and later: "\<forall>i' j'. (i', j') \<in> P \<longrightarrow> i' < i \<or> (i' = i \<and> j' < j)"
    and len: "len = runEnding bt at sb sa i j" "1 \<le> len"
  shows "firstLongest bt at sb sa (insert (i, j) P)
           (if len > bl then (i - len + 1, j - len + 1, len) else (bi, bj, bl))"
proof (cases "bl = 0 \<and> P = {}")
  case True
  with len show ?thesis
    by (auto simp: firstLongest_def)
next
  case False
  with inv obtain ie je where cell: "(ie, je) \<in> P" "bl = runEnding bt at sb sa ie je"
      "bi = ie - bl + 1" "bj = je - bl + 1"
    and best: "\<forall>i' j'. (i', j') \<in> P \<longrightarrow>
              runEnding bt at sb sa i' j' < bl \<or>
              (runEnding bt at sb sa i' j' = bl \<and> (ie < i' \<or> (ie = i' \<and> je \<le> j')))"
    unfolding firstLongest_def by auto
  show ?thesis
  proof (cases "len > bl")
    case True
    have "runEnding bt at sb sa i' j' < len" if "(i', j') \<in> P" for i' j'
      using best that True by fastforce
    with len have "firstLongest bt at sb sa (insert (i, j) P) (i - len + 1, j - len + 1, len)"
      unfolding firstLongest_def prod.case
      by (intro disjI2 exI [of _ i] exI [of _ j]) auto
    with True show ?thesis by simp
  next
    case notlonger: False
    from later cell(1) have "ie < i \<or> (ie = i \<and> je < j)" by blast
    with notlonger len have "runEnding bt at sb sa i j < bl \<or>
        (runEnding bt at sb sa i j = bl \<and> (ie < i \<or> (ie = i \<and> je \<le> j)))"
      by auto
    with best cell have "firstLongest bt at sb sa (insert (i, j) P) (bi, bj, bl)"
      unfolding firstLongest_def prod.case
      by (intro disjI2 exI [of _ ie] exI [of _ je]) auto
    with notlonger show ?thesis by simp
  qed
qed

lemma findMatchInner_firstLongest:
  assumes row: "m = rowLengths bt at sb sa ea (i - 1)" and i: "sb \<le> i"
  shows "sorted_wrt (<) locs \<Longrightarrow> \<forall>j \<in> set locs. elemAt bt i = elemAt at j \<Longrightarrow>
     \<forall>i' j'. (i', j') \<in> P \<longrightarrow> i' < i \<or> (i' = i \<and> (\<forall>j \<in> set locs. j' < j)) \<Longrightarrow>
     firstLongest bt at sb sa P b \<Longrightarrow>
     findMatchInner m i sa ea locs (b, n) = (b', n') \<Longrightarrow>
     firstLongest bt at sb sa (P \<union> {(i, j) | j. j \<in> set locs \<and> sa \<le> j \<and> j < ea}) b' \<and>
     n' = (\<lambda>j. if j \<in> set locs \<and> sa \<le> j \<and> j < ea
               then Some (runEnding bt at sb sa i j) else n j)"
proof (induction locs arbitrary: P b n)
  case Nil
  then show ?case by simp
next
  case (Cons j locs)
  obtain bi bj bl where b: "b = (bi, bj, bl)" by (cases b) auto
  from Cons.prems(1) have sorted: "sorted_wrt (<) locs" and least: "\<forall>x \<in> set locs. j < x"
    by simp_all
  from Cons.prems(2) have eq: "\<forall>j \<in> set locs. elemAt bt i = elemAt at j"
    by (metis list.set_intros(2))
  show ?case
  proof (cases "j < sa")
    case True
    have cells: "{(i, x) | x. x \<in> set (j # locs) \<and> sa \<le> x \<and> x < ea} =
          {(i, x) | x. x \<in> set locs \<and> sa \<le> x \<and> x < ea}"
      using True by auto
    have maps: "(\<lambda>x. if x \<in> set (j # locs) \<and> sa \<le> x \<and> x < ea
               then Some (runEnding bt at sb sa i x) else n x) =
         (\<lambda>x. if x \<in> set locs \<and> sa \<le> x \<and> x < ea
               then Some (runEnding bt at sb sa i x) else n x)"
      using True by (intro ext) auto
    have run: "findMatchInner m i sa ea locs (b, n) = (b', n')"
      using Cons.prems(5) True b by simp
    have later: "\<forall>i' j'. (i', j') \<in> P \<longrightarrow> i' < i \<or> (i' = i \<and> (\<forall>j \<in> set locs. j' < j))"
      using Cons.prems(3) by auto
    show ?thesis
      unfolding cells maps by (rule Cons.IH [OF sorted eq later Cons.prems(4) run])
  next
    case lo: False
    show ?thesis
    proof (cases "j \<ge> ea")
      case True
      with least have cells: "{(i, x) | x. x \<in> set (j # locs) \<and> sa \<le> x \<and> x < ea} = {}"
        by fastforce
      have maps: "(\<lambda>x. if x \<in> set (j # locs) \<and> sa \<le> x \<and> x < ea
               then Some (runEnding bt at sb sa i x) else n x) = n"
        using True least by (intro ext) fastforce
      have "b' = b" "n' = n"
        using Cons.prems(5) lo True b by simp_all
      with Cons.prems(4) show ?thesis
        unfolding cells maps by simp
    next
      case hi: False
      define len where "len = orZero (m (j - 1)) + 1"
      from Cons.prems(2) have match: "elemAt bt i = elemAt at j"
        by (metis list.set_intros(1))
      have len: "len = runEnding bt at sb sa i j"
        unfolding len_def row using i lo hi match by (intro rowLengths_step) simp_all
      have pos: "1 \<le> len"
        unfolding len using i lo match by (intro runEnding_pos) simp_all
      let ?b = "if len > bl then (i - len + 1, j - len + 1, len) else (bi, bj, bl)"
      have next_best: "firstLongest bt at sb sa (insert (i, j) P) ?b"
        using Cons.prems(3,4) unfolding b by (intro firstLongest_pick [OF _ _ len pos]) auto
      have later: "\<forall>i' j'. (i', j') \<in> insert (i, j) P \<longrightarrow>
          i' < i \<or> (i' = i \<and> (\<forall>x \<in> set locs. j' < x))"
        using Cons.prems(3) least by auto
      have run: "findMatchInner m i sa ea locs (?b, n(j \<mapsto> len)) = (b', n')"
        using Cons.prems(5) lo hi unfolding b len_def by (simp add: Let_def)
      from Cons.IH [OF sorted eq later next_best run]
      have res: "firstLongest bt at sb sa
             (insert (i, j) P \<union> {(i, x) | x. x \<in> set locs \<and> sa \<le> x \<and> x < ea}) b'"
        and n': "n' = (\<lambda>x. if x \<in> set locs \<and> sa \<le> x \<and> x < ea
               then Some (runEnding bt at sb sa i x) else (n(j \<mapsto> len)) x)"
        by simp_all
      have cells: "insert (i, j) P \<union> {(i, x) | x. x \<in> set locs \<and> sa \<le> x \<and> x < ea} =
            P \<union> {(i, x) | x. x \<in> set (j # locs) \<and> sa \<le> x \<and> x < ea}"
        using lo hi by auto
      have maps: "(\<lambda>x. if x \<in> set locs \<and> sa \<le> x \<and> x < ea
               then Some (runEnding bt at sb sa i x) else (n(j \<mapsto> len)) x) =
          (\<lambda>x. if x \<in> set (j # locs) \<and> sa \<le> x \<and> x < ea
               then Some (runEnding bt at sb sa i x) else n x)"
        using lo hi len by (intro ext) auto
      from res n' show ?thesis
        unfolding cells maps by (rule conjI)
    qed
  qed
qed

lemma in_positions_iff:
  assumes "0 \<le> i" "i < int (length bt)" "0 \<le> j" "j < int (length at)"
  shows "(j \<in> set (positions at (bt ! nat i))) = (elemAt bt i = elemAt at j)"
  using assms by (auto simp: positions_set elemAt_def)

lemma positions_match:
  assumes "0 \<le> i" "i < int (length bt)"
  shows "\<forall>j \<in> set (positions at (bt ! nat i)). elemAt bt i = elemAt at j"
  using assms by (auto simp: positions_set elemAt_def)

lemma cellsBefore_row:
  assumes "0 \<le> i" "i < int (length bt)" "0 \<le> sa" "ea \<le> int (length at)" "sb \<le> i"
  shows "cellsBefore bt at sb sa ea i \<union>
           {(i, j) | j. j \<in> set (positions at (bt ! nat i)) \<and> sa \<le> j \<and> j < ea} =
         cellsBefore bt at sb sa ea (i + 1)"
proof -
  have "(j \<in> set (positions at (bt ! nat i))) = (elemAt bt i = elemAt at j)"
    if "sa \<le> j" "j < ea" for j
    using that assms by (intro in_positions_iff) auto
  then show ?thesis
    using assms(5) unfolding cellsBefore_def by (auto simp: order_less_le)
qed

lemma rowLengths_row:
  assumes "0 \<le> i" "i < int (length bt)" "0 \<le> sa" "ea \<le> int (length at)" "sb \<le> i"
  shows "(\<lambda>j. if j \<in> set (positions at (bt ! nat i)) \<and> sa \<le> j \<and> j < ea
              then Some (runEnding bt at sb sa i j) else None) =
         rowLengths bt at sb sa ea i"
proof (rule ext)
  fix j
  have "(j \<in> set (positions at (bt ! nat i))) = (elemAt bt i = elemAt at j)"
    if "sa \<le> j" "j < ea"
    using that assms by (intro in_positions_iff) auto
  then show "(if j \<in> set (positions at (bt ! nat i)) \<and> sa \<le> j \<and> j < ea
              then Some (runEnding bt at sb sa i j) else None) =
         rowLengths bt at sb sa ea i j"
    using assms(5) by (auto simp: rowLengths_def)
qed

lemma findMatchOuter_firstLongest:
  "idx = createIndex bt at \<Longrightarrow> 0 \<le> sb \<Longrightarrow> eb \<le> int (length bt) \<Longrightarrow>
   0 \<le> sa \<Longrightarrow> ea \<le> int (length at) \<Longrightarrow> sb \<le> i \<Longrightarrow>
   m = rowLengths bt at sb sa ea (i - 1) \<Longrightarrow>
   firstLongest bt at sb sa (cellsBefore bt at sb sa ea i) b \<Longrightarrow>
   findMatchOuter bt idx eb sa ea i (b, m) = (b', m') \<Longrightarrow>
   firstLongest bt at sb sa (cellsBefore bt at sb sa ea (max i eb)) b'"
proof (induction bt idx eb sa ea i "(b, m)" arbitrary: b m rule: findMatchOuter.induct)
  case (1 bt idx eb sa ea i b m)
  show ?case
  proof (cases "i < eb")
    case False
    with "1.prems"(9) have "b' = b" by (simp add: findMatchOuter.simps)
    moreover from False have "max i eb = i" by simp
    ultimately show ?thesis using "1.prems"(8) by simp
  next
    case True
    with "1.prems" have i: "0 \<le> i" "i < int (length bt)" by simp_all
    let ?locs = "positions at (bt ! nat i)"
    have locs: "locationsInAfter bt idx i = ?locs"
      unfolding \<open>idx = createIndex bt at\<close> by (rule locationsInAfter_createIndex [OF i])
    obtain b1 m1 where st: "findMatchInner m i sa ea (locationsInAfter bt idx i) (b, Map.empty) = (b1, m1)"
      by (cases "findMatchInner m i sa ea (locationsInAfter bt idx i) (b, Map.empty)") auto
    have later: "\<forall>i' j'. (i', j') \<in> cellsBefore bt at sb sa ea i \<longrightarrow>
        i' < i \<or> (i' = i \<and> (\<forall>j \<in> set ?locs. j' < j))"
      by (simp add: cellsBefore_def)
    from findMatchInner_firstLongest [OF "1.prems"(7) "1.prems"(6) positions_sorted
        positions_match [OF i] later "1.prems"(8) st [unfolded locs]]
    have b1: "firstLongest bt at sb sa (cellsBefore bt at sb sa ea (i + 1)) b1"
      and m1: "m1 = rowLengths bt at sb sa ea i"
      unfolding cellsBefore_row [OF i "1.prems"(4,5,6)] rowLengths_row [OF i "1.prems"(4,5,6)]
      by simp_all
    have run: "findMatchOuter bt idx eb sa ea (i + 1) (b1, m1) = (b', m')"
      using "1.prems"(9) True st by (simp add: findMatchOuter.simps [of _ _ _ _ _ i])
    have "firstLongest bt at sb sa (cellsBefore bt at sb sa ea (max (i + 1) eb)) b'"
      using "1.prems"(1-6) m1 b1 run by (intro "1.hyps" [OF True st]) simp_all
    moreover from True have "max (i + 1) eb = max i eb" by simp
    ultimately show ?thesis by simp
  qed
qed

text \<open>
  C7. With the index that \<open>createIndex\<close> builds and ranges inside the two sequences,
  \<open>findMatch\<close> returns none exactly when no token of the before range equals a token of
  the after range; otherwise it returns a run of pairwise equal tokens inside the ranges
  that no other such run exceeds in length, and among the runs of that length the one
  that starts leftmost in the before sequence and, among those, leftmost in the after
  sequence.
\<close>

theorem findMatch_longest_first:
  assumes "index = createIndex beforeTokens afterTokens"
    and "0 \<le> startInBefore" and "endInBefore \<le> int (length beforeTokens)"
    and "0 \<le> startInAfter" and "endInAfter \<le> int (length afterTokens)"
  shows "case findMatch beforeTokens afterTokens index
                startInBefore endInBefore startInAfter endInAfter of
           None \<Rightarrow>
             (\<forall>i j. \<not> commonRun beforeTokens afterTokens
                         startInBefore endInBefore startInAfter endInAfter i j 1)
         | Some m \<Rightarrow>
             m = Match (startInBefore_m m) (startInAfter_m m) (length_m m) \<and>
             commonRun beforeTokens afterTokens
               startInBefore endInBefore startInAfter endInAfter
               (startInBefore_m m) (startInAfter_m m) (length_m m) \<and>
             (\<forall>i j len.
                commonRun beforeTokens afterTokens
                  startInBefore endInBefore startInAfter endInAfter i j len \<longrightarrow>
                len < length_m m \<or>
                (len = length_m m \<and>
                 (startInBefore_m m < i \<or>
                  (startInBefore_m m = i \<and> startInAfter_m m \<le> j))))"
proof -
  let ?bt = beforeTokens and ?at = afterTokens
  let ?sb = startInBefore and ?eb = endInBefore and ?sa = startInAfter and ?ea = endInAfter
  let ?P = "cellsBefore ?bt ?at ?sb ?sa ?ea (max ?sb ?eb)"
  obtain bi bj bl m' where st:
    "findMatchOuter ?bt index ?eb ?sa ?ea ?sb ((?sb, ?sa, 0), Map.empty) = ((bi, bj, bl), m')"
    by (metis prod_cases3 surj_pair)
  have empty_row: "Map.empty = rowLengths ?bt ?at ?sb ?sa ?ea (?sb - 1)"
    by (simp add: rowLengths_def)
  have start: "firstLongest ?bt ?at ?sb ?sa (cellsBefore ?bt ?at ?sb ?sa ?ea ?sb) (?sb, ?sa, 0)"
    by (simp add: firstLongest_def cellsBefore_def)
  from findMatchOuter_firstLongest [OF assms order_refl empty_row start st]
  have inv: "firstLongest ?bt ?at ?sb ?sa ?P (bi, bj, bl)" .
  have cell_of_run: "(i + len - 1, j + len - 1) \<in> ?P"
    if "commonRun ?bt ?at ?sb ?eb ?sa ?ea i j len" for i j len
  proof -
    from that have "nat (len - 1) \<in> {0..<nat len}" by (simp add: commonRun_def)
    with that have "elemAt ?bt (i + int (nat (len - 1))) = elemAt ?at (j + int (nat (len - 1)))"
      unfolding commonRun_def by blast
    with that show ?thesis
      by (simp add: commonRun_def cellsBefore_def algebra_simps)
  qed
  show ?thesis
  proof (cases "bl = 0 \<and> ?P = {}")
    case True
    then have "findMatch ?bt ?at index ?sb ?eb ?sa ?ea = None"
      by (simp add: findMatch_def st)
    moreover have "\<not> commonRun ?bt ?at ?sb ?eb ?sa ?ea i j 1" for i j
      using cell_of_run [of i j 1] True by auto
    ultimately show ?thesis by simp
  next
    case False
    with inv obtain ie je where cell: "(ie, je) \<in> ?P" "bl = runEnding ?bt ?at ?sb ?sa ie je"
        "bi = ie - bl + 1" "bj = je - bl + 1"
      and best: "\<forall>i' j'. (i', j') \<in> ?P \<longrightarrow>
              runEnding ?bt ?at ?sb ?sa i' j' < bl \<or>
              (runEnding ?bt ?at ?sb ?sa i' j' = bl \<and> (ie < i' \<or> (ie = i' \<and> je \<le> j')))"
      unfolding firstLongest_def by auto
    from cell(1) have in_range: "?sb \<le> ie" "ie < ?eb" "?sa \<le> je" "je < ?ea"
      and eq: "elemAt ?bt ie = elemAt ?at je"
      by (auto simp: cellsBefore_def)
    from runEnding_pos [OF in_range(1,3) eq] cell(2) have pos: "1 \<le> bl" by simp
    then have res: "findMatch ?bt ?at index ?sb ?eb ?sa ?ea = Some (Match bi bj bl)"
      by (simp add: findMatch_def st)
    have run: "commonRun ?bt ?at ?sb ?eb ?sa ?ea bi bj bl"
      unfolding cell(3,4)
      by (rule runEnding_is_run [OF cell(2) [symmetric] pos in_range(2,4)])
    have "len < bl \<or> (len = bl \<and> (bi < i \<or> (bi = i \<and> bj \<le> j)))"
      if r: "commonRun ?bt ?at ?sb ?eb ?sa ?ea i j len" for i j len
    proof -
      from commonRun_le_runEnding [OF r]
      have "len \<le> runEnding ?bt ?at ?sb ?sa (i + len - 1) (j + len - 1)" .
      moreover from best cell_of_run [OF r]
      have "runEnding ?bt ?at ?sb ?sa (i + len - 1) (j + len - 1) < bl \<or>
          (runEnding ?bt ?at ?sb ?sa (i + len - 1) (j + len - 1) = bl \<and>
           (ie < i + len - 1 \<or> (ie = i + len - 1 \<and> je \<le> j + len - 1)))"
        by blast
      ultimately show ?thesis
        unfolding cell(3,4) by auto
    qed
    with res run show ?thesis
      by (simp add: Match_def)
  qed
qed

theorem findMatch_longest_first_witness:
  "(0::int) \<le> 0 \<and> (4::int) \<le> int (length [[1], [2], [1], [2::nat]]) \<and>
   (5::int) \<le> int (length [[1], [2], [3], [1], [2::nat]]) \<and>
   findMatch [[1], [2], [1], [2]] [[1], [2], [3], [1], [2]]
     (createIndex [[1], [2], [1], [2]] [[1], [2], [3], [1], [2]]) 0 4 0 5 = Some (Match 0 0 2) \<and>
   commonRun [[1], [2], [1], [2]] [[1], [2], [3], [1], [2]] 0 4 0 5 0 0 2 \<and>
   commonRun [[1], [2], [1], [2]] [[1], [2], [3], [1], [2]] 0 4 0 5 2 3 2 \<and>
   \<not> commonRun [[1], [2], [1], [2]] [[1], [2], [3], [1], [2]] 0 4 0 5 0 0 3"
proof -
  let ?bt = "[[1], [2], [1], [2::nat]]" and ?at = "[[1], [2], [3], [1], [2::nat]]"
  have h: "(0::int) \<le> 0" "(4::int) \<le> int (length ?bt)" "(5::int) \<le> int (length ?at)"
    by simp_all
  have ev: "findMatch ?bt ?at (createIndex ?bt ?at) 0 4 0 5 = Some (Match 0 0 2)"
    by code_simp
  from findMatch_longest_first [OF refl h(1,2) h(1,3)]
  have run: "commonRun ?bt ?at 0 4 0 5 0 0 2"
    and longest: "\<forall>i j len. commonRun ?bt ?at 0 4 0 5 i j len \<longrightarrow>
        len < 2 \<or> (len = 2 \<and> (0 < i \<or> (0 = i \<and> 0 \<le> j)))"
    unfolding ev by (simp_all add: Match_def)
  from longest have "\<not> commonRun ?bt ?at 0 4 0 5 0 0 3" by fastforce
  moreover have "commonRun ?bt ?at 0 4 0 5 2 3 2"
    by (simp add: commonRun_def elemAt_def numeral_2_eq_2 atLeast0_lessThan_Suc)
  ultimately show ?thesis using h ev run by simp
qed

section \<open>Operations: coverage\<close>

lemma tiles_le: "tiles pos n ranges \<Longrightarrow> pos \<le> n"
proof (induction ranges arbitrary: pos)
  case Nil
  then show ?case by simp
next
  case (Cons r ranges)
  obtain s e where r: "r = (s, e)" by (cases r) auto
  with Cons.prems obtain e' where e: "s = pos" "s \<le> e'" "tiles (e' + 1) n ranges"
    by (auto split: option.splits)
  from Cons.IH [OF e(3)] e show ?case by simp
qed

lemma tiles_count:
  "tiles pos n ranges \<Longrightarrow>
   length (filter (inRange k) ranges) = (if pos \<le> k \<and> k < n then 1 else 0)"
proof (induction ranges arbitrary: pos)
  case Nil
  then show ?case by simp
next
  case (Cons r ranges)
  obtain s e where r: "r = (s, e)" by (cases r) auto
  with Cons.prems obtain e' where e: "e = Some e'" "s = pos" "s \<le> e'" "tiles (e' + 1) n ranges"
    by (auto split: option.splits)
  from tiles_le [OF e(4)] have "e' < n" by simp
  with Cons.IH [OF e(4)] e show ?case
    by (auto simp: r inRange_def)
qed

lemma tiles_partitionsRange: "tiles 0 (int n) ranges \<Longrightarrow> partitionsRange n ranges"
  by (simp add: partitionsRange_def tiles_count)

lemma tiles_append:
  "tiles pos mid xs \<Longrightarrow> tiles mid n ys \<Longrightarrow> tiles pos n (xs @ ys)"
  by (induction xs arbitrary: pos) (auto split: option.splits)

lemma tiles_split:
  "tiles pos n (xs @ ys) \<Longrightarrow> \<exists>mid. tiles pos mid xs \<and> tiles mid n ys"
  by (induction xs arbitrary: pos) (auto split: option.splits)

lemma beforeRanges_append: "beforeRanges (xs @ ys) = beforeRanges xs @ beforeRanges ys"
  by (simp add: beforeRanges_def)

lemma afterRanges_append: "afterRanges (xs @ ys) = afterRanges xs @ afterRanges ys"
  by (simp add: afterRanges_def)

lemma chain_start: "chain pb pa eb ea ms \<Longrightarrow> pb' \<le> pb \<Longrightarrow> pa' \<le> pa \<Longrightarrow> chain pb' pa' eb ea ms"
  by (cases ms) auto

lemma chain_append:
  "chain pb pa mb ma xs \<Longrightarrow> chain mb ma eb ea ys \<Longrightarrow> chain pb pa eb ea (xs @ ys)"
  by (induction xs arbitrary: pb pa) (auto intro: chain_start)

lemma recursivelyFindMatchingBlocks_chain:
  "sb \<le> eb \<Longrightarrow> sa \<le> ea \<Longrightarrow>
   \<exists>ms. recursivelyFindMatchingBlocks bt at idx sb eb sa ea blocks = blocks @ ms \<and>
        chain sb sa eb ea ms"
proof (induction bt at idx sb eb sa ea blocks rule: recursivelyFindMatchingBlocks.induct)
  case (1 bt at idx sb eb sa ea blocks)
  show ?case
  proof (cases "findMatch bt at idx sb eb sa ea")
    case None
    with "1.prems" show ?thesis
      by (subst recursivelyFindMatchingBlocks.simps) simp
  next
    case (Some m)
    note range = findMatch_range [OF Some]
    define blocks1 where "blocks1 =
      (if sb < startInBefore_m m \<and> sa < startInAfter_m m
       then recursivelyFindMatchingBlocks bt at idx sb (startInBefore_m m) sa (startInAfter_m m) blocks
       else blocks)"
    have "\<exists>left. blocks1 = blocks @ left \<and> chain sb sa (startInBefore_m m) (startInAfter_m m) left"
    proof (cases "sb < startInBefore_m m \<and> sa < startInAfter_m m")
      case True
      then have "blocks1 = recursivelyFindMatchingBlocks bt at idx
          sb (startInBefore_m m) sa (startInAfter_m m) blocks"
        unfolding blocks1_def by (rule if_P)
      with "1.IH"(1) [OF Some True] True show ?thesis
        by simp
    next
      case False
      then have "blocks1 = blocks"
        unfolding blocks1_def by (rule if_not_P)
      with range show ?thesis
        by (intro exI [of _ "[]"]) simp
    qed
    then obtain left where left: "blocks1 = blocks @ left"
        "chain sb sa (startInBefore_m m) (startInAfter_m m) left"
      by blast
    define result where "result =
      (if endInBefore_m m < eb \<and> endInAfter_m m < ea
       then recursivelyFindMatchingBlocks bt at idx (endInBefore_m m + 1) eb (endInAfter_m m + 1) ea
              (blocks1 @ [m])
       else blocks1 @ [m])"
    have "\<exists>right. result = (blocks1 @ [m]) @ right \<and>
        chain (endInBefore_m m + 1) (endInAfter_m m + 1) eb ea right"
    proof (cases "endInBefore_m m < eb \<and> endInAfter_m m < ea")
      case True
      then have "result = recursivelyFindMatchingBlocks bt at idx
          (endInBefore_m m + 1) eb (endInAfter_m m + 1) ea (blocks1 @ [m])"
        unfolding result_def by (rule if_P)
      with "1.IH"(2) [OF Some blocks1_def refl True] True show ?thesis
        by simp
    next
      case False
      then have "result = blocks1 @ [m]"
        unfolding result_def by (rule if_not_P)
      with range show ?thesis
        by (intro exI [of _ "[]"]) simp
    qed
    then obtain right where right: "result = (blocks1 @ [m]) @ right"
        "chain (endInBefore_m m + 1) (endInAfter_m m + 1) eb ea right"
      by blast
    have "chain (startInBefore_m m) (startInAfter_m m) eb ea (m # right)"
      using range right(2) by simp
    with left(2) have "chain sb sa eb ea (left @ m # right)"
      by (rule chain_append)
    moreover have "recursivelyFindMatchingBlocks bt at idx sb eb sa ea blocks = result"
      by (subst recursivelyFindMatchingBlocks.simps)
         (simp add: Some result_def blocks1_def Let_def)
    ultimately show ?thesis
      using left(1) right(1) by simp
  qed
qed

lemma operationStep_tiles:
  assumes "endInBefore_m m = startInBefore_m m + length_m m - 1"
    and "endInAfter_m m = startInAfter_m m + length_m m - 1"
    and "0 \<le> length_m m" and "pb \<le> startInBefore_m m" and "pa \<le> startInAfter_m m"
  shows "\<exists>new. operationStep (pb, pa, ops) m =
             (endInBefore_m m + 1, endInAfter_m m + 1, ops @ new) \<and>
           tiles pb (endInBefore_m m + 1) (beforeRanges new) \<and>
           tiles pa (endInAfter_m m + 1) (afterRanges new)"
proof -
  define gap where "gap =
    (if actionMap (pb = startInBefore_m m) (pa = startInAfter_m m) \<noteq> NoneAction
     then [\<lparr>action_op = actionMap (pb = startInBefore_m m) (pa = startInAfter_m m),
            startInBefore_op = pb,
            endInBefore_op =
              (if actionMap (pb = startInBefore_m m) (pa = startInAfter_m m) \<noteq> Insert
               then Some (startInBefore_m m - 1) else None),
            startInAfter_op = pa,
            endInAfter_op =
              (if actionMap (pb = startInBefore_m m) (pa = startInAfter_m m) \<noteq> Delete
               then Some (startInAfter_m m - 1) else None)\<rparr>]
     else [])"
  define eq where "eq =
    (if length_m m \<noteq> 0
     then [\<lparr>action_op = Equal, startInBefore_op = startInBefore_m m,
            endInBefore_op = Some (endInBefore_m m),
            startInAfter_op = startInAfter_m m,
            endInAfter_op = Some (endInAfter_m m)\<rparr>]
     else [])"
  have step: "operationStep (pb, pa, ops) m =
      (endInBefore_m m + 1, endInAfter_m m + 1, ops @ gap @ eq)"
    by (simp add: gap_def eq_def Let_def)
  have gap_b: "tiles pb (startInBefore_m m) (beforeRanges gap)"
    using assms(4) by (auto simp: gap_def actionMap_def beforeRanges_def)
  have gap_a: "tiles pa (startInAfter_m m) (afterRanges gap)"
    using assms(5) by (auto simp: gap_def actionMap_def afterRanges_def)
  have eq_b: "tiles (startInBefore_m m) (endInBefore_m m + 1) (beforeRanges eq)"
    using assms(1,3) by (auto simp: eq_def beforeRanges_def)
  have eq_a: "tiles (startInAfter_m m) (endInAfter_m m + 1) (afterRanges eq)"
    using assms(2,3) by (auto simp: eq_def afterRanges_def)
  from tiles_append [OF gap_b eq_b] tiles_append [OF gap_a eq_a] step show ?thesis
    by (intro exI [of _ "gap @ eq"]) (simp add: beforeRanges_append afterRanges_append)
qed

lemma foldl_operationStep_tiles:
  "chain pb pa eb ea ms \<Longrightarrow>
   \<exists>new. snd (snd (foldl operationStep (pb, pa, ops) (ms @ [Match eb ea 0]))) = ops @ new \<and>
         tiles pb eb (beforeRanges new) \<and> tiles pa ea (afterRanges new)"
proof (induction ms arbitrary: pb pa ops)
  case Nil
  let ?m = "Match eb ea 0"
  from Nil have m: "endInBefore_m ?m = startInBefore_m ?m + length_m ?m - 1"
      "endInAfter_m ?m = startInAfter_m ?m + length_m ?m - 1" "0 \<le> length_m ?m"
      "pb \<le> startInBefore_m ?m" "pa \<le> startInAfter_m ?m"
    by (simp_all add: Match_def)
  from operationStep_tiles [OF m, of ops] obtain new where
    "operationStep (pb, pa, ops) ?m = (endInBefore_m ?m + 1, endInAfter_m ?m + 1, ops @ new)"
    "tiles pb (endInBefore_m ?m + 1) (beforeRanges new)"
    "tiles pa (endInAfter_m ?m + 1) (afterRanges new)"
    by blast
  moreover have "endInBefore_m ?m + 1 = eb" "endInAfter_m ?m + 1 = ea"
    by (simp_all add: Match_def)
  ultimately show ?case
    by (intro exI [of _ new]) (simp del: operationStep.simps)
next
  case (Cons m ms)
  from Cons.prems have c:
    "endInBefore_m m = startInBefore_m m + length_m m - 1 \<and>
     endInAfter_m m = startInAfter_m m + length_m m - 1 \<and>
     1 \<le> length_m m \<and> pb \<le> startInBefore_m m \<and> pa \<le> startInAfter_m m \<and>
     chain (endInBefore_m m + 1) (endInAfter_m m + 1) eb ea ms"
    by (rule chain.simps(2) [THEN iffD1])
  then have m: "endInBefore_m m = startInBefore_m m + length_m m - 1"
      "endInAfter_m m = startInAfter_m m + length_m m - 1" "0 \<le> length_m m"
      "pb \<le> startInBefore_m m" "pa \<le> startInAfter_m m"
    by linarith+
  from c have rest: "chain (endInBefore_m m + 1) (endInAfter_m m + 1) eb ea ms"
    by blast
  from operationStep_tiles [OF m, of ops] obtain new1 where
    step: "operationStep (pb, pa, ops) m = (endInBefore_m m + 1, endInAfter_m m + 1, ops @ new1)"
    and new1: "tiles pb (endInBefore_m m + 1) (beforeRanges new1)"
      "tiles pa (endInAfter_m m + 1) (afterRanges new1)"
    by blast
  from Cons.IH [OF rest, of "ops @ new1"] obtain new2 where
    new2: "snd (snd (foldl operationStep (endInBefore_m m + 1, endInAfter_m m + 1, ops @ new1)
                  (ms @ [Match eb ea 0]))) = (ops @ new1) @ new2"
      "tiles (endInBefore_m m + 1) eb (beforeRanges new2)"
      "tiles (endInAfter_m m + 1) ea (afterRanges new2)"
    by blast
  from tiles_append [OF new1(1) new2(2)] tiles_append [OF new1(2) new2(3)] new2(1) step
  show ?case
    by (intro exI [of _ "new1 @ new2"])
       (simp add: beforeRanges_append afterRanges_append del: operationStep.simps)
qed

lemma derivedOperations_tiles:
  "tiles 0 (int (length bt)) (beforeRanges (derivedOperations bt at)) \<and>
   tiles 0 (int (length at)) (afterRanges (derivedOperations bt at))"
proof -
  from recursivelyFindMatchingBlocks_chain
    [of 0 "int (length bt)" 0 "int (length at)" bt at "createIndex bt at" "[]"]
  obtain ms where ms: "findMatchingBlocks bt at = ms"
      "chain 0 0 (int (length bt)) (int (length at)) ms"
    by (auto simp: findMatchingBlocks_def)
  from foldl_operationStep_tiles [OF ms(2), of "[]"] show ?thesis
    by (auto simp: derivedOperations_def ms(1))
qed

lemma postProcessStep_tiles:
  assumes "tiles 0 pb (beforeRanges processed)" and "tiles pb n (beforeRanges (op # rest))"
    and "tiles 0 pa (afterRanges processed)" and "tiles pa m (afterRanges (op # rest))"
  shows "\<exists>pb' pa'.
           tiles 0 pb' (beforeRanges (postProcessStep bt processed op)) \<and>
           tiles pb' n (beforeRanges rest) \<and>
           tiles 0 pa' (afterRanges (postProcessStep bt processed op)) \<and>
           tiles pa' m (afterRanges rest)"
proof (cases "(isSingleWhitespace bt op \<and> lastOpAction processed = Replace) \<or>
              (action_op op = Replace \<and> lastOpAction processed = Replace)")
  case False
  then have step: "postProcessStep bt processed op = processed @ [op]"
    unfolding postProcessStep_def by (rule if_not_P)
  from assms(2) have "tiles pb n (beforeRanges [op] @ beforeRanges rest)"
    using beforeRanges_append [of "[op]" rest] by simp
  from tiles_split [OF this] obtain pb' where
    b: "tiles pb pb' (beforeRanges [op])" "tiles pb' n (beforeRanges rest)" by blast
  from assms(4) have "tiles pa m (afterRanges [op] @ afterRanges rest)"
    using afterRanges_append [of "[op]" rest] by simp
  from tiles_split [OF this] obtain pa' where
    a: "tiles pa pa' (afterRanges [op])" "tiles pa' m (afterRanges rest)" by blast
  from tiles_append [OF assms(1) b(1)] tiles_append [OF assms(3) a(1)] b(2) a(2)
  show ?thesis
    unfolding step beforeRanges_append afterRanges_append by blast
next
  case True
  then have act: "action_op op = Equal \<or> action_op op = Replace"
    and last: "lastOpAction processed = Replace"
    by (auto simp: isSingleWhitespace_def split: if_splits)
  from last have ne: "processed \<noteq> []" and l: "action_op (last processed) = Replace"
    by (auto simp: lastOpAction_def split: if_splits)
  define l' where "l' = (last processed)\<lparr>endInBefore_op := endInBefore_op op,
                                        endInAfter_op := endInAfter_op op\<rparr>"
  from ne have pr: "processed = butlast processed @ [last processed]" by simp
  have step: "postProcessStep bt processed op = butlast processed @ [l']"
  proof -
    from True have "postProcessStep bt processed op = processed[length processed - 1 := l']"
      unfolding postProcessStep_def l'_def by (rule if_P)
    also have "\<dots> = butlast processed @ [l']"
      using ne by (metis pr length_butlast list_update_length)
    finally show ?thesis .
  qed
  from assms(1) have "tiles 0 pb (beforeRanges (butlast processed) @
      [(startInBefore_op (last processed), endInBefore_op (last processed))])"
    using l by (subst (asm) pr) (simp add: beforeRanges_def)
  from tiles_split [OF this] obtain midb elb where
    lb: "tiles 0 midb (beforeRanges (butlast processed))"
      "startInBefore_op (last processed) = midb" "endInBefore_op (last processed) = Some elb"
      "midb \<le> elb" "elb + 1 = pb"
    by (auto split: option.splits)
  from assms(3) have "tiles 0 pa (afterRanges (butlast processed) @
      [(startInAfter_op (last processed), endInAfter_op (last processed))])"
    using l by (subst (asm) pr) (simp add: afterRanges_def)
  from tiles_split [OF this] obtain mida ela where
    la: "tiles 0 mida (afterRanges (butlast processed))"
      "startInAfter_op (last processed) = mida" "endInAfter_op (last processed) = Some ela"
      "mida \<le> ela" "ela + 1 = pa"
    by (auto split: option.splits)
  from assms(2) act obtain eb where
    ob: "endInBefore_op op = Some eb" "startInBefore_op op = pb" "pb \<le> eb"
      "tiles (eb + 1) n (beforeRanges rest)"
    by (auto simp: beforeRanges_def split: option.splits)
  from assms(4) act obtain ea where
    oa: "endInAfter_op op = Some ea" "startInAfter_op op = pa" "pa \<le> ea"
      "tiles (ea + 1) m (afterRanges rest)"
    by (auto simp: afterRanges_def split: option.splits)
  have "tiles midb (eb + 1) (beforeRanges [l'])"
    using l lb ob by (simp add: l'_def beforeRanges_def)
  from tiles_append [OF lb(1) this]
  have b: "tiles 0 (eb + 1) (beforeRanges (butlast processed @ [l']))"
    by (simp add: beforeRanges_append)
  have "tiles mida (ea + 1) (afterRanges [l'])"
    using l la oa by (simp add: l'_def afterRanges_def)
  from tiles_append [OF la(1) this]
  have a: "tiles 0 (ea + 1) (afterRanges (butlast processed @ [l']))"
    by (simp add: afterRanges_append)
  from a b ob(4) oa(4) show ?thesis
    unfolding step by blast
qed

lemma foldl_postProcessStep_tiles:
  "tiles 0 pb (beforeRanges processed) \<Longrightarrow> tiles pb n (beforeRanges ops) \<Longrightarrow>
   tiles 0 pa (afterRanges processed) \<Longrightarrow> tiles pa m (afterRanges ops) \<Longrightarrow>
   tiles 0 n (beforeRanges (foldl (postProcessStep bt) processed ops)) \<and>
   tiles 0 m (afterRanges (foldl (postProcessStep bt) processed ops))"
proof (induction ops arbitrary: processed pb pa)
  case Nil
  then show ?case by (simp add: beforeRanges_def afterRanges_def)
next
  case (Cons op ops)
  from postProcessStep_tiles [OF Cons.prems, of bt] obtain pb' pa' where
    "tiles 0 pb' (beforeRanges (postProcessStep bt processed op))"
    "tiles pb' n (beforeRanges ops)"
    "tiles 0 pa' (afterRanges (postProcessStep bt processed op))"
    "tiles pa' m (afterRanges ops)"
    by blast
  from Cons.IH [OF this] show ?case by simp
qed

lemma postProcessOperations_tiles:
  "tiles 0 n (beforeRanges ops) \<Longrightarrow> tiles 0 m (afterRanges ops) \<Longrightarrow>
   tiles 0 n (beforeRanges (postProcessOperations ops bt)) \<and>
   tiles 0 m (afterRanges (postProcessOperations ops bt))"
  unfolding postProcessOperations_def
  by (rule foldl_postProcessStep_tiles [of 0 "[]"]) (simp_all add: beforeRanges_def afterRanges_def)

text \<open>
  C4. For every pair of token sequences, the operations of \<open>calculateOperations\<close>
  partition the token indexes \<open>[0, len(beforeTokens))\<close> by their before-ranges and
  \<open>[0, len(afterTokens))\<close> by their after-ranges: the ranges follow one another without
  gap or overlap and every index lies in exactly one. This holds for the operations as
  derived from the matching blocks and for the list that \<open>postProcessOperations\<close> returns.
\<close>

theorem operations_partition_tokens:
  "partitionsRange (length beforeTokens)
     (beforeRanges (derivedOperations beforeTokens afterTokens)) \<and>
   partitionsRange (length afterTokens)
     (afterRanges (derivedOperations beforeTokens afterTokens)) \<and>
   (case calculateOperations (Tokens beforeTokens) (Tokens afterTokens) of
      Inl e \<Rightarrow> False
    | Inr operations \<Rightarrow>
        partitionsRange (length beforeTokens) (beforeRanges operations) \<and>
        partitionsRange (length afterTokens) (afterRanges operations))"
proof -
  from derivedOperations_tiles [of beforeTokens afterTokens]
  have raw: "tiles 0 (int (length beforeTokens))
        (beforeRanges (derivedOperations beforeTokens afterTokens))"
      "tiles 0 (int (length afterTokens))
        (afterRanges (derivedOperations beforeTokens afterTokens))"
    by simp_all
  from postProcessOperations_tiles [OF raw, of beforeTokens]
  have post: "tiles 0 (int (length beforeTokens))
        (beforeRanges (postProcessOperations
           (derivedOperations beforeTokens afterTokens) beforeTokens))"
      "tiles 0 (int (length afterTokens))
        (afterRanges (postProcessOperations
           (derivedOperations beforeTokens afterTokens) beforeTokens))"
    by simp_all
  from raw post show ?thesis
    by (simp add: calculateOperations_def tiles_partitionsRange)
qed

theorem operations_partition_tokens_witness:
  "derivedOperations [[1], [2], [3], [32], [4]] [[5], [32], [6]] =
     [\<lparr>action_op = Replace, startInBefore_op = 0, endInBefore_op = Some 2,
        startInAfter_op = 0, endInAfter_op = Some 0\<rparr>,
      \<lparr>action_op = Equal, startInBefore_op = 3, endInBefore_op = Some 3,
        startInAfter_op = 1, endInAfter_op = Some 1\<rparr>,
      \<lparr>action_op = Replace, startInBefore_op = 4, endInBefore_op = Some 4,
        startInAfter_op = 2, endInAfter_op = Some 2\<rparr>] \<and>
   calculateOperations (Tokens [[1], [2], [3], [32], [4]]) (Tokens [[5], [32], [6]]) =
     Inr [\<lparr>action_op = Replace, startInBefore_op = 0, endInBefore_op = Some 4,
            startInAfter_op = 0, endInAfter_op = Some 2\<rparr>] \<and>
   partitionsRange 5 [(0, Some 2), (3, Some 3), (4, Some 4)] \<and>
   partitionsRange 3 [(0, Some 0), (1, Some 1), (2, Some 2)] \<and>
   partitionsRange 5 [(0, Some 4)] \<and> partitionsRange 3 [(0, Some 2)]"
proof -
  let ?bt = "[[1], [2], [3], [32], [4::nat]]" and ?at = "[[5], [32], [6::nat]]"
  have raw: "derivedOperations ?bt ?at =
     [\<lparr>action_op = Replace, startInBefore_op = 0, endInBefore_op = Some 2,
        startInAfter_op = 0, endInAfter_op = Some 0\<rparr>,
      \<lparr>action_op = Equal, startInBefore_op = 3, endInBefore_op = Some 3,
        startInAfter_op = 1, endInAfter_op = Some 1\<rparr>,
      \<lparr>action_op = Replace, startInBefore_op = 4, endInBefore_op = Some 4,
        startInAfter_op = 2, endInAfter_op = Some 2\<rparr>]"
    by code_simp
  have post: "calculateOperations (Tokens ?bt) (Tokens ?at) =
     Inr [\<lparr>action_op = Replace, startInBefore_op = 0, endInBefore_op = Some 4,
            startInAfter_op = 0, endInAfter_op = Some 2\<rparr>]"
    by code_simp
  have len: "length ?bt = 5" "length ?at = 3"
    by simp_all
  have ranges:
    "beforeRanges [\<lparr>action_op = Replace, startInBefore_op = 0, endInBefore_op = Some 2,
        startInAfter_op = 0, endInAfter_op = Some 0\<rparr>,
      \<lparr>action_op = Equal, startInBefore_op = 3, endInBefore_op = Some 3,
        startInAfter_op = 1, endInAfter_op = Some 1\<rparr>,
      \<lparr>action_op = Replace, startInBefore_op = 4, endInBefore_op = Some 4,
        startInAfter_op = 2, endInAfter_op = Some 2\<rparr>] =
       [(0, Some 2), (3, Some 3), (4, Some 4)]"
    "afterRanges [\<lparr>action_op = Replace, startInBefore_op = 0, endInBefore_op = Some 2,
        startInAfter_op = 0, endInAfter_op = Some 0\<rparr>,
      \<lparr>action_op = Equal, startInBefore_op = 3, endInBefore_op = Some 3,
        startInAfter_op = 1, endInAfter_op = Some 1\<rparr>,
      \<lparr>action_op = Replace, startInBefore_op = 4, endInBefore_op = Some 4,
        startInAfter_op = 2, endInAfter_op = Some 2\<rparr>] =
       [(0, Some 0), (1, Some 1), (2, Some 2)]"
    "beforeRanges [\<lparr>action_op = Replace, startInBefore_op = 0, endInBefore_op = Some 4,
            startInAfter_op = 0, endInAfter_op = Some 2\<rparr>] = [(0, Some 4)]"
    "afterRanges [\<lparr>action_op = Replace, startInBefore_op = 0, endInBefore_op = Some 4,
            startInAfter_op = 0, endInAfter_op = Some 2\<rparr>] = [(0, Some 2)]"
    by (simp_all add: beforeRanges_def afterRanges_def)
  from operations_partition_tokens [of ?bt ?at]
  have "partitionsRange 5 [(0, Some 2), (3, Some 3), (4, Some 4)] \<and>
   partitionsRange 3 [(0, Some 0), (1, Some 1), (2, Some 2)] \<and>
   partitionsRange 5 [(0, Some 4)] \<and> partitionsRange 3 [(0, Some 2)]"
    unfolding raw post len by (simp only: sum.case ranges)
  with raw post show ?thesis by blast
qed

section \<open>Errors and results of the operation calculation\<close>

lemma positions_absent: "token \<notin> set inThese \<Longrightarrow> positions inThese token = []"
  by (auto simp: positions_def filter_empty_conv)

lemma findMatchOuter_no_locations:
  "0 \<le> i \<Longrightarrow> eb \<le> int (length bt) \<Longrightarrow> set bt \<inter> set at = {} \<Longrightarrow>
   fst (findMatchOuter bt (createIndex bt at) eb sa ea i (b, m)) = b"
proof (induction bt "createIndex bt at" eb sa ea i "(b, m)" arbitrary: m rule: findMatchOuter.induct)
  case (1 bt eb sa ea i m)
  show ?case
  proof (cases "i < eb")
    case False
    then show ?thesis by (simp add: findMatchOuter.simps)
  next
    case True
    with "1.prems" have i: "0 \<le> i" "i < int (length bt)" by simp_all
    then have "bt ! nat i \<in> set bt" by simp
    with "1.prems"(3) have "bt ! nat i \<notin> set at" by blast
    then have locs: "locationsInAfter bt (createIndex bt at) i = []"
      by (simp add: locationsInAfter_createIndex [OF i] positions_absent)
    have "findMatchOuter bt (createIndex bt at) eb sa ea i (b, m) =
        findMatchOuter bt (createIndex bt at) eb sa ea (i + 1) (b, Map.empty)"
      using True by (subst findMatchOuter.simps) (simp add: locs)
    moreover have "fst (findMatchOuter bt (createIndex bt at) eb sa ea (i + 1) (b, Map.empty)) = b"
      using "1.prems" i by (intro "1.hyps" [OF True]) (simp_all add: locs)
    ultimately show ?thesis by simp
  qed
qed

lemma findMatch_no_common_token:
  assumes "set bt \<inter> set at = {}" and "0 \<le> sb" and "eb \<le> int (length bt)"
  shows "findMatch bt at (createIndex bt at) sb eb sa ea = None"
proof -
  from findMatchOuter_no_locations [OF assms(2,3,1), of sa ea "(sb, sa, 0)" Map.empty]
  show ?thesis
    by (auto simp: findMatch_def split: prod.splits)
qed

lemma derivedOperations_no_common_token:
  assumes "set bt \<inter> set at = {}"
  shows "derivedOperations bt at = coverEverything bt at"
proof -
  have "findMatch bt at (createIndex bt at) 0 (int (length bt)) 0 (int (length at)) = None"
    by (rule findMatch_no_common_token [OF assms]) simp_all
  then have "findMatchingBlocks bt at = []"
    by (simp add: findMatchingBlocks_def recursivelyFindMatchingBlocks.simps)
  then show ?thesis
    by (auto simp: derivedOperations_def coverEverything_def Match_def actionMap_def Let_def)
qed

lemma postProcessOperations_coverEverything:
  "postProcessOperations (coverEverything bt at) bt' = coverEverything bt at"
  by (simp add: postProcessOperations_def coverEverything_def postProcessStep_def lastOpAction_def)

text \<open>
  C6. \<open>calculateOperations\<close> raises an error exactly when one of the two token sequences
  is absent (\<open>null\<close> or \<open>undefined\<close>), the error naming the first absent one. On two token
  sequences, whatever they hold, it raises nothing and returns an operation list that
  partitions both sequences; when the sequences share no token, also when one or both
  are empty, the list is the single \<open>replace\<close>, \<open>insert\<close> or \<open>delete\<close> covering
  everything, or the empty list for two empty sequences.
\<close>

theorem calculateOperations_raises_iff:
  "isl (calculateOperations before after) =
     (before = Null \<or> before = Undefined \<or> after = Null \<or> after = Undefined) \<and>
   (before = Null \<or> before = Undefined \<longrightarrow>
      calculateOperations before after = Inl (Error ''beforeTokens is required'')) \<and>
   (after = Null \<or> after = Undefined \<longrightarrow>
      calculateOperations (Tokens beforeTokens) after = Inl (Error ''afterTokens is required'')) \<and>
   (\<exists>operations.
      calculateOperations (Tokens beforeTokens) (Tokens afterTokens) = Inr operations \<and>
      partitionsRange (length beforeTokens) (beforeRanges operations) \<and>
      partitionsRange (length afterTokens) (afterRanges operations) \<and>
      (set beforeTokens \<inter> set afterTokens = {} \<longrightarrow>
         operations = coverEverything beforeTokens afterTokens))"
proof -
  have raises: "isl (calculateOperations before after) =
     (before = Null \<or> before = Undefined \<or> after = Null \<or> after = Undefined)"
    by (cases before; cases after) (simp_all add: calculateOperations_def)
  have message: "before = Null \<or> before = Undefined \<longrightarrow>
      calculateOperations before after = Inl (Error ''beforeTokens is required'')"
    by (auto simp: calculateOperations_def)
  have message': "after = Null \<or> after = Undefined \<longrightarrow>
      calculateOperations (Tokens beforeTokens) after = Inl (Error ''afterTokens is required'')"
    by (auto simp: calculateOperations_def)
  let ?ops = "postProcessOperations (derivedOperations beforeTokens afterTokens) beforeTokens"
  have result: "calculateOperations (Tokens beforeTokens) (Tokens afterTokens) = Inr ?ops"
    by (simp add: calculateOperations_def)
  from derivedOperations_tiles [of beforeTokens afterTokens]
  have raw: "tiles 0 (int (length beforeTokens))
        (beforeRanges (derivedOperations beforeTokens afterTokens))"
      "tiles 0 (int (length afterTokens))
        (afterRanges (derivedOperations beforeTokens afterTokens))"
    by simp_all
  from postProcessOperations_tiles [OF raw, of beforeTokens]
  have parts: "partitionsRange (length beforeTokens) (beforeRanges ?ops)"
      "partitionsRange (length afterTokens) (afterRanges ?ops)"
    by (simp_all add: tiles_partitionsRange)
  have worst: "set beforeTokens \<inter> set afterTokens = {} \<longrightarrow>
      ?ops = coverEverything beforeTokens afterTokens"
    by (simp add: derivedOperations_no_common_token postProcessOperations_coverEverything)
  from raises message message' result parts worst show ?thesis by blast
qed

theorem calculateOperations_raises_iff_witness:
  "calculateOperations Null (Tokens [[97]]) = Inl (Error ''beforeTokens is required'') \<and>
   set [[97::nat]] \<inter> set [[98]] = {} \<and>
   calculateOperations (Tokens [[97]]) (Tokens [[98]]) =
     Inr [\<lparr>action_op = Replace, startInBefore_op = 0, endInBefore_op = Some 0,
            startInAfter_op = 0, endInAfter_op = Some 0\<rparr>] \<and>
   calculateOperations (Tokens []) (Tokens [[98]]) =
     Inr [\<lparr>action_op = Insert, startInBefore_op = 0, endInBefore_op = None,
            startInAfter_op = 0, endInAfter_op = Some 0\<rparr>] \<and>
   calculateOperations (Tokens []) (Tokens []) = Inr []"
proof -
  have h: "set [[97::nat]] \<inter> set [[98]] = {}" "set ([]::token list) \<inter> set [[98]] = {}"
      "set ([]::token list) \<inter> set [] = {}"
    by simp_all
  from calculateOperations_raises_iff [of Null "Tokens [[97]]" "[[97]]" "[[98]]"]
       calculateOperations_raises_iff [of Null "Tokens [[97]]" "[]" "[[98]]"]
       calculateOperations_raises_iff [of Null "Tokens [[97]]" "[]" "[]"] h
  show ?thesis
    by (auto simp: coverEverything_def)
qed

end
